theory Spec2Isabelle
  imports Main "HOL-Library.Word"
begin

unbundle bit_operations_syntax

section \<open>Exceptions\<close>

text \<open>
  The exceptions raised in \<^verbatim>\<open>_gf2.py\<close>, as values. Where the source gives a message,
  the message is kept: the two failures of \<^verbatim>\<open>log.calculate\<close> are both
  \<^verbatim>\<open>ArithmeticError\<close> and differ by their message only. Besides them:
  \<^item> \<open>IndexError\<close> and \<open>AttributeError\<close> are what Python raises when an empty tuple is
    indexed and when an object lacks an attribute;
  \<^item> \<open>ValueError\<close> is what numpy raises when two shapes do not broadcast;
  \<^item> \<open>ValidationError\<close> is the spec's name for the failure of the range check of the
    array framework, which is not part of \<^verbatim>\<open>_gf2.py\<close>;
  \<^item> \<open>Unmodelled\<close> is not an exception: it marks the inputs that this development does
    not cover: operand ranks of the packed matrix product other than a two-dimensional
    first operand with a one- or two-dimensional second operand, and calls of the
    inherited dispatchers of the packed class with inputs that are not all packed arrays
    (what they do with an integer or an unpacked array is not in \<^verbatim>\<open>_gf2.py\<close>).
\<close>

datatype py_error =
    ZeroDivisionError string
  | ArithmeticError string
  | AssertionError
  | NotImplementedError
  | IndexError
  | AttributeError
  | ValueError
  | ValidationError
  | Unmodelled

type_synonym 'a result = "py_error + 'a"

definition DivisionByZero :: py_error where
  "DivisionByZero =
     ZeroDivisionError ''Cannot compute the multiplicative inverse of 0 in a Galois field.''"

definition UndefinedLogarithm :: py_error where
  "UndefinedLogarithm =
     ArithmeticError ''Cannot compute the discrete logarithm of 0 in a Galois field.''"

definition InvalidGenerator :: py_error where
  "InvalidGenerator =
     ArithmeticError ''In GF(2), 1 is the only multiplicative generator.''"

fun bind_result :: "'a result \<Rightarrow> ('a \<Rightarrow> 'b result) \<Rightarrow> 'b result" where
  "bind_result (Inl e) f = Inl e"
| "bind_result (Inr v) f = f v"

section \<open>Scalar arithmetic of GF(2)\<close>

text \<open>
  \<^verbatim>\<open>reciprocal.calculate\<close>, \<^verbatim>\<open>divide.calculate\<close>, \<^verbatim>\<open>power.calculate\<close> and
  \<^verbatim>\<open>log.calculate\<close>, on Python integers.
\<close>

definition reciprocal_calculate :: "int \<Rightarrow> int result" where
  "reciprocal_calculate a = (if a = 0 then Inl DivisionByZero else Inr 1)"

definition divide_calculate :: "int \<Rightarrow> int \<Rightarrow> int result" where
  "divide_calculate a b = (if b = 0 then Inl DivisionByZero else Inr (a AND b))"

definition power_calculate :: "int \<Rightarrow> int \<Rightarrow> int result" where
  "power_calculate a b =
     (if a = 0 \<and> b < 0 then Inl DivisionByZero
      else if b = 0 then Inr 1
      else Inr a)"

definition log_calculate :: "int \<Rightarrow> int \<Rightarrow> int result" where
  "log_calculate a b =
     (if a = 0 then Inl UndefinedLogarithm
      else if b \<noteq> 1 then Inl InvalidGenerator
      else Inr 0)"

text \<open>
  The overrides installed by \<^verbatim>\<open>UFuncMixin_2_1.__init_subclass__\<close>: addition and
  subtraction are \<^verbatim>\<open>np.bitwise_xor\<close>, negation is \<^verbatim>\<open>np.positive\<close>, multiplication is
  \<^verbatim>\<open>np.bitwise_and\<close>. None of them raises. They work on any integer dtype: on the
  integers of an unpacked array and on the bytes of packed storage.
\<close>

definition add_override :: "'a::semiring_bit_operations \<Rightarrow> 'a \<Rightarrow> 'a result" where
  "add_override a b = Inr (a XOR b)"

definition negative_override :: "'a \<Rightarrow> 'a result" where
  "negative_override a = Inr a"

definition subtract_override :: "'a::semiring_bit_operations \<Rightarrow> 'a \<Rightarrow> 'a result" where
  "subtract_override a b = Inr (a XOR b)"

definition multiply_override :: "'a::semiring_bit_operations \<Rightarrow> 'a \<Rightarrow> 'a result" where
  "multiply_override a b = Inr (a AND b)"

section \<open>Arrays\<close>

text \<open>
  A numpy array is its shape and its elements in row-major order. A well-formed array has
  as many elements as its shape says. Unpacked arrays hold Python integers (the values of
  their elements, whatever the integer dtype), packed storage holds bytes.
\<close>

type_synonym u8 = "8 word"

record 'a ndarray =
  shape :: "nat list"
  buf :: "'a list"

definition wf_array :: "'a ndarray \<Rightarrow> bool" where
  "wf_array a = (length (buf a) = prod_list (shape a))"

definition is_binary :: "int ndarray \<Rightarrow> bool" where
  "is_binary a = list_all (\<lambda>v. v = 0 \<or> v = 1) (buf a)"

text \<open>The \<open>r\<close> consecutive lines of length \<open>n\<close> of a row-major buffer.\<close>

definition split_rows :: "nat \<Rightarrow> nat \<Rightarrow> 'a list \<Rightarrow> 'a list list" where
  "split_rows r n xs = map (\<lambda>i. take n (drop (i * n) xs)) [0..<r]"

text \<open>The \<open>c\<close> columns of a list of lines, each of length \<open>c\<close> at least.\<close>

definition columns :: "nat \<Rightarrow> 'a list list \<Rightarrow> 'a list list" where
  "columns c ls = map (\<lambda>j. map (\<lambda>l. l ! j) ls) [0..<c]"

subsection \<open>\<^verbatim>\<open>np.packbits\<close> and \<^verbatim>\<open>np.unpackbits\<close>\<close>

text \<open>
  numpy packs eight elements to a byte, the first element in the most significant bit
  (\<^verbatim>\<open>bitorder='big'\<close>, the default); an element counts as 1 when it is not zero; the last
  byte of a line is padded with zero bits. Unpacking with a \<^verbatim>\<open>count\<close> keeps that many bits
  of each line (and pads with zeros when the line has fewer). A zero-dimensional array is
  treated as a one-dimensional array of one element.
\<close>

definition pack_byte :: "int list \<Rightarrow> u8" where
  "pack_byte bs =
     horner_sum of_bool 2 (rev (map (\<lambda>v. v \<noteq> 0) bs @ replicate (8 - length bs) False))"

definition unpack_byte :: "u8 \<Rightarrow> int list" where
  "unpack_byte w = map (\<lambda>i. of_bool (bit w (7 - i))) [0..<8]"

definition pack_line :: "int list \<Rightarrow> u8 list" where
  "pack_line bs = map pack_byte (split_rows ((length bs + 7) div 8) 8 bs)"

definition unpack_line :: "nat option \<Rightarrow> u8 list \<Rightarrow> int list" where
  "unpack_line count ws =
     (let bits = concat (map unpack_byte ws)
      in case count of
           None \<Rightarrow> bits
         | Some c \<Rightarrow> take c bits @ replicate (c - length bits) 0)"

definition at_least_1d :: "nat list \<Rightarrow> nat list" where
  "at_least_1d s = (if s = [] then [1] else s)"

definition packbits_last :: "int ndarray \<Rightarrow> u8 ndarray" where
  "packbits_last a =
     (let s = at_least_1d (shape a); n = last s; r = prod_list (butlast s)
      in \<lparr>shape = butlast s @ [(n + 7) div 8],
          buf = concat (map pack_line (split_rows r n (buf a)))\<rparr>)"

definition unpackbits_last :: "u8 ndarray \<Rightarrow> nat option \<Rightarrow> int ndarray" where
  "unpackbits_last a count =
     (let s = at_least_1d (shape a); n = last s; r = prod_list (butlast s)
      in \<lparr>shape = butlast s @ [case count of None \<Rightarrow> 8 * n | Some c \<Rightarrow> c],
          buf = concat (map (unpack_line count) (split_rows r n (buf a)))\<rparr>)"

text \<open>\<^verbatim>\<open>np.packbits(a, axis=0)\<close>: every column along the first axis is packed.\<close>

definition packbits_first :: "int ndarray \<Rightarrow> u8 ndarray" where
  "packbits_first a =
     (let s = at_least_1d (shape a); n = hd s; c = prod_list (tl s);
          k = (n + 7) div 8;
          packed = map pack_line (columns c (split_rows n c (buf a)))
      in \<lparr>shape = k # tl s, buf = concat (columns k packed)\<rparr>)"

subsection \<open>Broadcasting and elementwise functions\<close>

text \<open>
  numpy aligns two shapes at their last axis; two extents are compatible when they are
  equal or one of them is 1.
\<close>

fun broadcast_rev :: "nat list \<Rightarrow> nat list \<Rightarrow> nat list option" where
  "broadcast_rev [] ys = Some ys"
| "broadcast_rev (x # xs) [] = Some (x # xs)"
| "broadcast_rev (x # xs) (y # ys) =
     (if x = y \<or> y = 1 then map_option ((#) x) (broadcast_rev xs ys)
      else if x = 1 then map_option ((#) y) (broadcast_rev xs ys)
      else None)"

definition broadcast_shapes :: "nat list \<Rightarrow> nat list \<Rightarrow> nat list option" where
  "broadcast_shapes s t = map_option rev (broadcast_rev (rev s) (rev t))"

fun broadcast_buf :: "nat list \<Rightarrow> nat list \<Rightarrow> 'a list \<Rightarrow> 'a list" where
  "broadcast_buf (d # ds) (t # ts) xs =
     concat (map (\<lambda>i. broadcast_buf ds ts
                         (take (prod_list ds) (drop ((if d = 1 then 0 else i) * prod_list ds) xs)))
                 [0..<t])"
| "broadcast_buf ds ts xs = xs"

definition broadcast_to :: "nat list \<Rightarrow> 'a ndarray \<Rightarrow> 'a ndarray" where
  "broadcast_to t a =
     \<lparr>shape = t,
      buf = broadcast_buf (replicate (length t - length (shape a)) 1 @ shape a) t (buf a)\<rparr>"

definition binary_ufunc ::
  "('a \<Rightarrow> 'b \<Rightarrow> 'c) \<Rightarrow> 'a ndarray \<Rightarrow> 'b ndarray \<Rightarrow> 'c ndarray result" where
  "binary_ufunc f a b =
     (case broadcast_shapes (shape a) (shape b) of
        None \<Rightarrow> Inl ValueError
      | Some t \<Rightarrow> Inr \<lparr>shape = t,
                        buf = map2 f (buf (broadcast_to t a)) (buf (broadcast_to t b))\<rparr>)"

text \<open>\<^verbatim>\<open>np.bitwise_count\<close>: the number of set bits of every byte.\<close>

definition bitwise_count :: "u8 ndarray \<Rightarrow> int ndarray" where
  "bitwise_count a = \<lparr>shape = shape a, buf = map (\<lambda>w. sum_list (unpack_byte w)) (buf a)\<rparr>"

text \<open>
  \<^verbatim>\<open>np.bitwise_xor.reduce(a, axis=-1)\<close>: every line along the last axis is folded with XOR
  from 0; the last axis disappears.
\<close>

definition bitwise_xor_reduce :: "int ndarray \<Rightarrow> int ndarray" where
  "bitwise_xor_reduce a =
     \<lparr>shape = butlast (shape a),
      buf = map (foldl (XOR) 0)
                (split_rows (prod_list (butlast (shape a))) (last (shape a)) (buf a))\<rparr>"

section \<open>The unpacked and the packed field array\<close>

text \<open>
  A \<^verbatim>\<open>GF2\<close> array is an array of integers. A \<^verbatim>\<open>GF2BP\<close> array is its packed storage
  together with the attribute \<^verbatim>\<open>_unpacked_shape\<close>. The attribute is not part of the class:
  the code sets it on an instance after creating it (\<^verbatim>\<open>array._unpacked_shape = x.shape\<close>),
  and \<^verbatim>\<open>GF2BP\<close> has no \<^verbatim>\<open>__array_finalize__\<close> that would carry it to a new view or copy.
  So an array of the class may lack it (\<open>None\<close>), and reading it then raises
  \<^verbatim>\<open>AttributeError\<close>.
\<close>

record GF2BP =
  packed :: "u8 ndarray"
  unpacked_shape :: "nat list option"

definition get_unpacked_shape :: "GF2BP \<Rightarrow> nat list result" where
  "get_unpacked_shape p =
     (case unpacked_shape p of None \<Rightarrow> Inl AttributeError | Some s \<Rightarrow> Inr s)"

text \<open>What a constructor can be given: an array, an integer, or a (nested) sequence.\<close>

datatype array_like =
    NdArray "int ndarray"
  | PyInt int
  | PySeq "array_like list"

text \<open>The targets of \<^verbatim>\<open>astype\<close>: the two field array classes, or a numpy dtype by name.\<close>

datatype cast_target = To_GF2 | To_GF2BP | To_dtype string

text \<open>
  Modelled from the spec: \<^verbatim>\<open>FieldArray._verify_array_like_types_and_values\<close> is not in
  \<^verbatim>\<open>_gf2.py\<close>. The spec (section 6): given raw numeric input, verify every element lies in
  \<open>{0, ..., order - 1}\<close> for the field, raising a validation error otherwise. The order
  of GF(2) is 2.
\<close>

definition verify_array_like_types_and_values :: "int ndarray \<Rightarrow> int ndarray result" where
  "verify_array_like_types_and_values x =
     (if list_all (\<lambda>v. 0 \<le> v \<and> v < 2) (buf x) then Inr x else Inl ValidationError)"

text \<open>
  Modelled from the spec: the constructor of \<^verbatim>\<open>GF2\<close> is inherited from \<^verbatim>\<open>FieldArray\<close>,
  which is not in \<^verbatim>\<open>_gf2.py\<close>. The spec (sections 6 and 7): construction from nested
  sequences or arrays of integers restricted to \<open>{0,1}\<close>; an element outside \<open>{0,1}\<close> is
  a ValidationError; values are never clamped or coerced. The spec does not say what a
  ragged sequence gives; here the shape of a sequence is read along its first elements.
\<close>

fun leaves :: "array_like \<Rightarrow> int list" where
  "leaves (NdArray a) = buf a"
| "leaves (PyInt v) = [v]"
| "leaves (PySeq xs) = concat (map leaves xs)"

fun seq_shape :: "array_like \<Rightarrow> nat list" where
  "seq_shape (NdArray a) = shape a"
| "seq_shape (PyInt v) = []"
| "seq_shape (PySeq []) = [0]"
| "seq_shape (PySeq (x # xs)) = Suc (length xs) # seq_shape x"

definition GF2_new :: "array_like \<Rightarrow> int ndarray result" where
  "GF2_new x = verify_array_like_types_and_values \<lparr>shape = seq_shape x, buf = leaves x\<rparr>"

text \<open>\<^verbatim>\<open>np.array(x, ndmin=ndmin)\<close>: the shape is extended with leading 1s to \<open>ndmin\<close> axes.\<close>

definition np_array :: "int ndarray \<Rightarrow> nat \<Rightarrow> int ndarray" where
  "np_array x ndmin = x\<lparr>shape := replicate (ndmin - length (shape x)) 1 @ shape x\<rparr>"

text \<open>
  \<^verbatim>\<open>GF2BP.__new__(cls, x, dtype, copy, order, ndmin)\<close>. Only an \<^verbatim>\<open>np.ndarray\<close> is accepted;
  it is verified, packed along its last axis, and the shape of \<open>x\<close> is attached. Anything
  else raises \<^verbatim>\<open>NotImplementedError\<close>. The arguments \<^verbatim>\<open>dtype\<close>, \<^verbatim>\<open>copy\<close> and \<^verbatim>\<open>order\<close>
  do not change the values and are left out.
\<close>

definition GF2BP_new :: "array_like \<Rightarrow> nat \<Rightarrow> GF2BP result" where
  "GF2BP_new x ndmin =
     (case x of
        NdArray a \<Rightarrow>
          bind_result (verify_array_like_types_and_values a)
            (\<lambda>x'. Inr \<lparr>packed = packbits_last (np_array x' ndmin),
                       unpacked_shape = Some (shape x')\<rparr>)
      | PyInt v \<Rightarrow> Inl NotImplementedError
      | PySeq xs \<Rightarrow> Inl NotImplementedError)"

text \<open>
  \<^verbatim>\<open>GF2.astype(GF2BP)\<close> is \<^verbatim>\<open>GF2BP(self)\<close>, with the default \<^verbatim>\<open>ndmin=0\<close>: the bits are
  packed in the constructor.
\<close>

definition GF2_astype_GF2BP :: "int ndarray \<Rightarrow> GF2BP result" where
  "GF2_astype_GF2BP x = GF2BP_new (NdArray x) 0"

text \<open>
  Modelled from the spec: the \<^verbatim>\<open>astype\<close> that \<^verbatim>\<open>GF2BP.astype\<close> falls through to is
  inherited from \<^verbatim>\<open>FieldArray\<close>, which is not in \<^verbatim>\<open>_gf2.py\<close>. The spec (section 4.4):
  casting to any other target type is unsupported for the packed representation and fails
  with an explicit not-implemented condition.
\<close>

definition super_astype :: "GF2BP \<Rightarrow> cast_target \<Rightarrow> int ndarray result" where
  "super_astype p t = Inl NotImplementedError"

text \<open>
  \<^verbatim>\<open>GF2BP.astype(dtype)\<close>. For \<^verbatim>\<open>GF2\<close> the storage is unpacked along the last axis with
  \<^verbatim>\<open>count=self._unpacked_shape[-1]\<close> and handed to the constructor of \<^verbatim>\<open>GF2\<close>; a missing
  \<^verbatim>\<open>_unpacked_shape\<close> raises \<^verbatim>\<open>AttributeError\<close>, indexing an empty one raises
  \<^verbatim>\<open>IndexError\<close>.
\<close>

definition GF2BP_astype :: "GF2BP \<Rightarrow> cast_target \<Rightarrow> int ndarray result" where
  "GF2BP_astype p t =
     (if t = To_GF2 then
        bind_result (get_unpacked_shape p) (\<lambda>us.
          if us = [] then Inl IndexError
          else GF2_new (NdArray (unpackbits_last (packed p) (Some (last us)))))
      else super_astype p t)"

section \<open>Dispatch of elementwise operations\<close>

text \<open>
  Modelled from the spec: the dispatchers \<^verbatim>\<open>add_ufunc\<close>, \<^verbatim>\<open>negative_ufunc\<close>, ... of
  \<^verbatim>\<open>_domains/_lookup.py\<close> are not in \<^verbatim>\<open>_gf2.py\<close>. The spec (section 4.1): the scalar rules
  are applied elementwise to arrays with identical error semantics at array granularity
  (one failing element aborts the whole operation; no partial output is returned).
  Operands of different shapes are broadcast as numpy does.
\<close>

fun collect :: "'a result list \<Rightarrow> 'a list result" where
  "collect [] = Inr []"
| "collect (r # rs) = bind_result r (\<lambda>v. bind_result (collect rs) (\<lambda>vs. Inr (v # vs)))"

definition ufunc_call1 :: "('a \<Rightarrow> 'b result) \<Rightarrow> 'a ndarray \<Rightarrow> 'b ndarray result" where
  "ufunc_call1 f a =
     bind_result (collect (map f (buf a))) (\<lambda>vs. Inr \<lparr>shape = shape a, buf = vs\<rparr>)"

definition ufunc_call2 ::
  "('a \<Rightarrow> 'b \<Rightarrow> 'c result) \<Rightarrow> 'a ndarray \<Rightarrow> 'b ndarray \<Rightarrow> 'c ndarray result" where
  "ufunc_call2 f a b =
     bind_result (binary_ufunc f a b)
       (\<lambda>r. bind_result (collect (buf r)) (\<lambda>vs. Inr \<lparr>shape = shape r, buf = vs\<rparr>))"

text \<open>\<^verbatim>\<open>sqrt.implementation\<close> returns \<^verbatim>\<open>a.copy()\<close>.\<close>

definition sqrt_implementation :: "'a ndarray \<Rightarrow> 'a ndarray result" where
  "sqrt_implementation a = Inr a"

text \<open>
  The inputs of a dispatched operation: a packed array, an unpacked array or a Python
  integer.
\<close>

datatype operand = BitPacked GF2BP | Unpacked "int ndarray" | Scalar int

text \<open>
  Modelled from the spec: the inherited \<^verbatim>\<open>__call__\<close> of a dispatcher on the packed class
  (not in \<^verbatim>\<open>_gf2.py\<close>) applies the rule to the storage of packed inputs, byte by byte, which
  is the rule on every element for the bitwise overrides. The result is the storage of
  the output.
\<close>

definition packed_ufunc_call ::
  "(u8 \<Rightarrow> u8 \<Rightarrow> u8 result) \<Rightarrow> operand list \<Rightarrow> u8 ndarray result" where
  "packed_ufunc_call f inputs =
     (case inputs of
        [BitPacked x, BitPacked y] \<Rightarrow> ufunc_call2 f (packed x) (packed y)
      | _ \<Rightarrow> Inl Unmodelled)"

definition packed_ufunc_call1 ::
  "(u8 \<Rightarrow> u8 result) \<Rightarrow> operand list \<Rightarrow> u8 ndarray result" where
  "packed_ufunc_call1 f inputs =
     (case inputs of
        [BitPacked x] \<Rightarrow> ufunc_call1 f (packed x)
      | _ \<Rightarrow> Inl Unmodelled)"

text \<open>
  \<^verbatim>\<open>inputs[0]._unpacked_shape\<close>: an integer and an unpacked array do not have the
  attribute, and a packed array may lack it.
\<close>

definition first_unpacked_shape :: "operand list \<Rightarrow> nat list result" where
  "first_unpacked_shape inputs =
     (case inputs of
        [] \<Rightarrow> Inl IndexError
      | x # _ \<Rightarrow> (case x of
                    BitPacked p \<Rightarrow> get_unpacked_shape p
                  | Unpacked a \<Rightarrow> Inl AttributeError
                  | Scalar v \<Rightarrow> Inl AttributeError))"

text \<open>
  The four dispatchers \<^verbatim>\<open>add_ufunc_bitpacked\<close>, \<^verbatim>\<open>subtract_ufunc_bitpacked\<close>,
  \<^verbatim>\<open>multiply_ufunc_bitpacked\<close> and \<^verbatim>\<open>divide_ufunc_bitpacked\<close>: each calls the inherited
  \<^verbatim>\<open>__call__\<close> (the parameter \<open>super\<close>), then sets the \<^verbatim>\<open>_unpacked_shape\<close> of the output to
  that of the first input.
\<close>

definition add_ufunc_bitpacked_call ::
  "(operand list \<Rightarrow> u8 ndarray result) \<Rightarrow> operand list \<Rightarrow> GF2BP result" where
  "add_ufunc_bitpacked_call super inputs =
     bind_result (super inputs) (\<lambda>output.
       bind_result (first_unpacked_shape inputs) (\<lambda>s.
         Inr \<lparr>packed = output, unpacked_shape = Some s\<rparr>))"

definition subtract_ufunc_bitpacked_call ::
  "(operand list \<Rightarrow> u8 ndarray result) \<Rightarrow> operand list \<Rightarrow> GF2BP result" where
  "subtract_ufunc_bitpacked_call super inputs =
     bind_result (super inputs) (\<lambda>output.
       bind_result (first_unpacked_shape inputs) (\<lambda>s.
         Inr \<lparr>packed = output, unpacked_shape = Some s\<rparr>))"

definition multiply_ufunc_bitpacked_call ::
  "(operand list \<Rightarrow> u8 ndarray result) \<Rightarrow> operand list \<Rightarrow> GF2BP result" where
  "multiply_ufunc_bitpacked_call super inputs =
     bind_result (super inputs) (\<lambda>output.
       bind_result (first_unpacked_shape inputs) (\<lambda>s.
         Inr \<lparr>packed = output, unpacked_shape = Some s\<rparr>))"

definition divide_ufunc_bitpacked_call ::
  "(operand list \<Rightarrow> u8 ndarray result) \<Rightarrow> operand list \<Rightarrow> GF2BP result" where
  "divide_ufunc_bitpacked_call super inputs =
     bind_result (super inputs) (\<lambda>output.
       bind_result (first_unpacked_shape inputs) (\<lambda>s.
         Inr \<lparr>packed = output, unpacked_shape = Some s\<rparr>))"

text \<open>
  \<^verbatim>\<open>UFuncMixin_2_1_BitPacked.__init_subclass__\<close> installs addition with the override
  \<^verbatim>\<open>np.bitwise_xor\<close> and multiplication with \<^verbatim>\<open>np.bitwise_and\<close>.
\<close>

definition GF2BP_add :: "operand list \<Rightarrow> GF2BP result" where
  "GF2BP_add = add_ufunc_bitpacked_call (packed_ufunc_call add_override)"

definition GF2BP_multiply :: "operand list \<Rightarrow> GF2BP result" where
  "GF2BP_multiply = multiply_ufunc_bitpacked_call (packed_ufunc_call multiply_override)"

text \<open>
  Negation, the reciprocal, the power, the logarithm and the square root are installed
  there without such a dispatcher of their own: \<^verbatim>\<open>negative_ufunc(cls, override=np.positive)\<close>,
  \<^verbatim>\<open>reciprocal(cls)\<close>, \<^verbatim>\<open>power(cls)\<close>, \<^verbatim>\<open>log(cls)\<close>, \<^verbatim>\<open>sqrt(cls)\<close>. Their output is the
  new array that the inherited \<^verbatim>\<open>__call__\<close> makes, and nothing sets its
  \<^verbatim>\<open>_unpacked_shape\<close>. For the square root that array is \<^verbatim>\<open>a.copy()\<close>, a new array of the
  class with the same storage.
\<close>

definition GF2BP_negative :: "operand list \<Rightarrow> GF2BP result" where
  "GF2BP_negative inputs =
     bind_result (packed_ufunc_call1 negative_override inputs) (\<lambda>output.
       Inr \<lparr>packed = output, unpacked_shape = None\<rparr>)"

definition GF2BP_sqrt :: "operand list \<Rightarrow> GF2BP result" where
  "GF2BP_sqrt inputs =
     (case inputs of
        [BitPacked a] \<Rightarrow>
          bind_result (sqrt_implementation (packed a)) (\<lambda>output.
            Inr \<lparr>packed = output, unpacked_shape = None\<rparr>)
      | _ \<Rightarrow> Inl Unmodelled)"

section \<open>The packed matrix product\<close>

text \<open>
  Modelled from the spec: \<^verbatim>\<open>GF2.Zeros\<close> is inherited from \<^verbatim>\<open>FieldArray\<close>, which is not in
  \<^verbatim>\<open>_gf2.py\<close>; it gives the all-zero array of a shape.
\<close>

definition GF2_Zeros :: "nat list \<Rightarrow> int ndarray" where
  "GF2_Zeros s = \<lparr>shape = s, buf = replicate (prod_list s) 0\<rparr>"

text \<open>\<^verbatim>\<open>b[:, i]\<close> and \<^verbatim>\<open>output[:, i] = col\<close> on two-dimensional arrays.\<close>

definition take_column :: "'a ndarray \<Rightarrow> nat \<Rightarrow> 'a ndarray" where
  "take_column b i =
     \<lparr>shape = [hd (shape b)],
      buf = map (\<lambda>l. l ! i) (split_rows (hd (shape b)) (last (shape b)) (buf b))\<rparr>"

definition set_column :: "'a ndarray \<Rightarrow> nat \<Rightarrow> 'a list \<Rightarrow> 'a ndarray" where
  "set_column out i col =
     out\<lparr>buf := concat (map2 (\<lambda>l v. l[i := v])
                               (split_rows (hd (shape out)) (last (shape out)) (buf out)) col)\<rparr>"

text \<open>
  The body of the loop of the matrix case:
  \<^verbatim>\<open>np.bitwise_xor.reduce(np.bitwise_count((a & b[:, i]).view(np.ndarray)), axis=-1) % 2\<close>.
  The values assigned to the output are residues modulo 2, so the range check of the
  assignment always passes.
\<close>

definition matmul_column :: "u8 ndarray \<Rightarrow> u8 ndarray \<Rightarrow> nat \<Rightarrow> int list result" where
  "matmul_column a b i =
     bind_result (binary_ufunc (AND) a (take_column b i))
       (\<lambda>ab. Inr (map (\<lambda>v. v mod 2) (buf (bitwise_xor_reduce (bitwise_count ab)))))"

fun matmul_loop ::
  "u8 ndarray \<Rightarrow> u8 ndarray \<Rightarrow> nat list \<Rightarrow> int ndarray \<Rightarrow> int ndarray result" where
  "matmul_loop a b [] output = Inr output"
| "matmul_loop a b (i # is) output =
     bind_result (matmul_column a b i) (\<lambda>col. matmul_loop a b is (set_column output i col))"

text \<open>
  \<^verbatim>\<open>matmul_ufunc_bitpacked.__call__\<close>. Both inputs must be packed arrays. The
  \<^verbatim>\<open>_unpacked_shape\<close> of the second is read (that of the first is not); the second is
  unpacked along its last axis and packed again along its first axis, keeping its
  \<^verbatim>\<open>_unpacked_shape\<close>. The assertion on the inner dimensions compares \<^verbatim>\<open>a.shape[-1]\<close> and
  \<^verbatim>\<open>b.shape[0]\<close>, the shapes of the packed storage. \<^verbatim>\<open>a & b\<close> is numpy's
  \<^verbatim>\<open>bitwise_and\<close> on the storage, with broadcasting.
\<close>

definition matmul_ufunc_bitpacked_call :: "operand \<Rightarrow> operand \<Rightarrow> GF2BP result" where
  "matmul_ufunc_bitpacked_call x y =
     (case (x, y) of
        (BitPacked pa, BitPacked pb) \<Rightarrow>
          bind_result (get_unpacked_shape pb) (\<lambda>us.
           if us = [] then Inl IndexError
           else
             let a = packed pa;
                 b = packbits_first (unpackbits_last (packed pb) (Some (last us)))
             in if shape a = [] then Inl IndexError
                else if last (shape a) \<noteq> hd (shape b) then Inl AssertionError
                else if length (shape b) = 1 then
                  (if length (shape a) \<noteq> 2 then Inl Unmodelled
                   else
                     bind_result (binary_ufunc (AND) a b) (\<lambda>ab.
                       Inr \<lparr>packed = packbits_last (bitwise_xor_reduce (unpackbits_last ab None)),
                            unpacked_shape = Some [hd (shape a)]\<rparr>))
                else
                  (if length (shape a) \<noteq> 2 \<or> length (shape b) \<noteq> 2 then Inl Unmodelled
                   else
                     let final_shape = [hd (shape a), last (shape b)]
                     in bind_result
                          (matmul_loop a b [0..<last (shape b)] (GF2_Zeros final_shape))
                          (\<lambda>output. Inr \<lparr>packed = packbits_last output,
                                          unpacked_shape = Some final_shape\<rparr>)))
      | _ \<Rightarrow> Inl AssertionError)"

section \<open>The reference product\<close>

text \<open>
  The conventional integer matrix product reduced modulo 2, as the spec words it: for a
  first operand of shape \<open>[M, N]\<close> and a second of shape \<open>[N]\<close> or \<open>[N, P]\<close>, the entry
  is the sum over \<open>k\<close> of the products of the entries, modulo 2.
\<close>

definition reference_matmul_mod2 :: "int ndarray \<Rightarrow> int ndarray \<Rightarrow> int ndarray" where
  "reference_matmul_mod2 A B =
     (let M = hd (shape A); N = last (shape A)
      in if length (shape B) = 1 then
           \<lparr>shape = [M],
            buf = map (\<lambda>i. (\<Sum>k\<leftarrow>[0..<N]. buf A ! (i * N + k) * buf B ! k) mod 2) [0..<M]\<rparr>
         else
           (let P = last (shape B)
            in \<lparr>shape = [M, P],
                buf = concat (map (\<lambda>i. map (\<lambda>j. (\<Sum>k\<leftarrow>[0..<N].
                                 buf A ! (i * N + k) * buf B ! (k * P + j)) mod 2) [0..<P])
                               [0..<M])\<rparr>))"

section \<open>Compositions the claims speak of\<close>

text \<open>\<^verbatim>\<open>isinstance(x, GF2BP)\<close>.\<close>

definition is_GF2BP :: "operand \<Rightarrow> bool" where
  "is_GF2BP x = (case x of BitPacked p \<Rightarrow> True | Unpacked a \<Rightarrow> False | Scalar v \<Rightarrow> False)"

text \<open>Pack an unpacked array, then cast the packed array back to \<^verbatim>\<open>GF2\<close>.\<close>

definition pack_then_unpack :: "int ndarray \<Rightarrow> int ndarray result" where
  "pack_then_unpack y = bind_result (GF2_astype_GF2BP y) (\<lambda>p. GF2BP_astype p To_GF2)"

text \<open>Pack both operands and multiply; then unpack the product.\<close>

definition packed_matmul :: "int ndarray \<Rightarrow> int ndarray \<Rightarrow> GF2BP result" where
  "packed_matmul A B =
     bind_result (GF2_astype_GF2BP A) (\<lambda>pa.
       bind_result (GF2_astype_GF2BP B) (\<lambda>pb.
         matmul_ufunc_bitpacked_call (BitPacked pa) (BitPacked pb)))"

definition packed_matmul_unpacked :: "int ndarray \<Rightarrow> int ndarray \<Rightarrow> int ndarray result" where
  "packed_matmul_unpacked A B =
     bind_result (packed_matmul A B) (\<lambda>r. GF2BP_astype r To_GF2)"

section \<open>Lists, rows and broadcasting\<close>

lemma length_split_rows [simp]: "length (split_rows r n xs) = r"
  by (simp add: split_rows_def)

lemma split_rows_Suc:
  "split_rows (Suc r) n xs = take n xs # split_rows r n (drop n xs)"
  unfolding split_rows_def map_upt_Suc by (simp add: add.commute)

lemma split_rows_0 [simp]: "split_rows 0 n xs = []"
  by (simp add: split_rows_def)

lemma concat_split_rows: "length xs = r * n \<Longrightarrow> concat (split_rows r n xs) = xs"
proof (induction r arbitrary: xs)
  case 0
  then show ?case by simp
next
  case (Suc r)
  then have "length (drop n xs) = r * n" by simp
  with Suc.IH have "concat (split_rows r n (drop n xs)) = drop n xs" by blast
  then show ?case by (simp add: split_rows_Suc)
qed

lemma split_rows_concat:
  "length xss = r \<Longrightarrow> list_all (\<lambda>l. length l = n) xss \<Longrightarrow> split_rows r n (concat xss) = xss"
proof (induction xss arbitrary: r)
  case Nil
  then show ?case by simp
next
  case (Cons l xss)
  then obtain r' where r: "r = Suc r'" and r': "length xss = r'" by (cases r) auto
  from Cons.prems have l: "length l = n" and all: "list_all (\<lambda>l. length l = n) xss" by simp_all
  from Cons.IH [OF r' all] show ?case
    by (simp add: r split_rows_Suc l)
qed

lemma split_rows_lengths:
  "length xs = r * n \<Longrightarrow> list_all (\<lambda>l. length l = n) (split_rows r n xs)"
proof (induction r arbitrary: xs)
  case 0
  then show ?case by simp
next
  case (Suc r)
  then have "length (drop n xs) = r * n" by simp
  with Suc.IH have "list_all (\<lambda>l. length l = n) (split_rows r n (drop n xs))" by blast
  with Suc.prems show ?case by (simp add: split_rows_Suc)
qed

lemma collect_map_Inr [simp]: "collect (map Inr xs) = Inr xs"
  by (induction xs) simp_all

lemma broadcast_rev_same [simp]: "broadcast_rev s s = Some s"
  by (induction s) simp_all

lemma broadcast_shapes_same [simp]: "broadcast_shapes s s = Some s"
  by (simp add: broadcast_shapes_def)

lemma broadcast_buf_same:
  "length xs = prod_list s \<Longrightarrow> broadcast_buf s s xs = xs"
proof (induction s arbitrary: xs)
  case Nil
  then show ?case by simp
next
  case (Cons d ds)
  have "\<And>i. i < d \<Longrightarrow>
      broadcast_buf ds ds (take (prod_list ds) (drop ((if d = 1 then 0 else i) * prod_list ds) xs))
      = take (prod_list ds) (drop (i * prod_list ds) xs)"
  proof -
    fix i assume i: "i < d"
    then have eq: "(if d = 1 then 0 else i) = i" by auto
    from i have "Suc i \<le> d" by simp
    then have "Suc i * prod_list ds \<le> d * prod_list ds" by (rule mult_le_mono1)
    with Cons.prems have "length (take (prod_list ds) (drop (i * prod_list ds) xs)) = prod_list ds"
      by simp
    from Cons.IH [OF this] show "broadcast_buf ds ds (take (prod_list ds) (drop ((if d = 1 then 0 else i) * prod_list ds) xs))
      = take (prod_list ds) (drop (i * prod_list ds) xs)"
      by (simp only: eq)
  qed
  then have "map (\<lambda>i. broadcast_buf ds ds
           (take (prod_list ds) (drop ((if d = 1 then 0 else i) * prod_list ds) xs))) [0..<d]
      = map (\<lambda>i. take (prod_list ds) (drop (i * prod_list ds) xs)) [0..<d]"
    by (intro map_cong refl) simp
  then have "broadcast_buf (d # ds) (d # ds) xs = concat (split_rows d (prod_list ds) xs)"
    by (simp only: broadcast_buf.simps split_rows_def)
  with Cons.prems show ?case by (simp add: concat_split_rows)
qed

lemma broadcast_to_same: "wf_array a \<Longrightarrow> broadcast_to (shape a) a = a"
  by (simp add: broadcast_to_def wf_array_def broadcast_buf_same)

lemma binary_ufunc_same_shape:
  "wf_array a \<Longrightarrow> wf_array b \<Longrightarrow> shape b = shape a \<Longrightarrow>
   binary_ufunc f a b = Inr \<lparr>shape = shape a, buf = map2 f (buf a) (buf b)\<rparr>"
  using broadcast_to_same [of a] broadcast_to_same [of b]
  by (simp add: binary_ufunc_def)

lemma collect_map_total: "collect (map (\<lambda>x. Inr (f x)) xs) = Inr (map f xs)"
  by (induction xs) simp_all

lemma collect_map2_total: "collect (map2 (\<lambda>x y. Inr (f x y)) xs ys) = Inr (map2 f xs ys)"
  by (induction xs ys rule: list_induct2') simp_all

lemma ufunc_call2_total:
  "wf_array a \<Longrightarrow> wf_array b \<Longrightarrow> shape b = shape a \<Longrightarrow>
   ufunc_call2 (\<lambda>x y. Inr (f x y)) a b = Inr \<lparr>shape = shape a, buf = map2 f (buf a) (buf b)\<rparr>"
  by (simp only: ufunc_call2_def binary_ufunc_same_shape collect_map2_total
      bind_result.simps ndarray.simps)

lemma ufunc_call1_total:
  "ufunc_call1 (\<lambda>x. Inr (f x)) a = Inr \<lparr>shape = shape a, buf = map f (buf a)\<rparr>"
  by (simp only: ufunc_call1_def collect_map_total bind_result.simps)

section \<open>Bytes and lines\<close>

lemma length_unpack_byte [simp]: "length (unpack_byte w) = 8"
  by (simp add: unpack_byte_def)

lemma unpack_pack_byte:
  assumes "length bs \<le> 8"
  shows "unpack_byte (pack_byte bs)
       = map (\<lambda>v. of_bool (v \<noteq> 0)) bs @ replicate (8 - length bs) 0"
proof -
  define bl where "bl = map (\<lambda>v. v \<noteq> 0) bs @ replicate (8 - length bs) False"
  from assms have len: "length bl = 8" by (simp add: bl_def)
  have "map (\<lambda>i. (of_bool (bit (horner_sum of_bool 2 (rev bl) :: u8) (7 - i)) :: int)) [0..<8]
      = map (\<lambda>i. of_bool (bl ! i)) [0..<8]"
  proof (intro map_cong refl)
    fix i assume "i \<in> set [0..<8]"
    then have i: "i < 8" by simp
    then have "rev bl ! (7 - i) = bl ! i"
      using len by (simp add: rev_nth)
    moreover have "7 - i < (8::nat)" by arith
    ultimately show "(of_bool (bit (horner_sum of_bool 2 (rev bl) :: u8) (7 - i)) :: int)
        = of_bool (bl ! i)"
      using len by (simp add: bit_horner_sum_bit_word_iff)
  qed
  also have "\<dots> = map of_bool (map ((!) bl) [0..<length bl])"
    by (simp add: len)
  also have "\<dots> = map of_bool bl"
    by (simp only: map_nth)
  finally show ?thesis
    by (simp add: unpack_byte_def pack_byte_def bl_def)
qed



lemma pack_line_Nil [simp]: "pack_line [] = []"
  by (simp add: pack_line_def)

lemma ceil8_small: "\<not> 8 \<le> (n::nat) \<Longrightarrow> 0 < n \<Longrightarrow> (n + 7) div 8 = 1"
  by simp

lemma ceil8_Suc: "0 < (n::nat) \<Longrightarrow> (n + 7) div 8 = Suc ((n - 8 + 7) div 8)"
proof (cases "8 \<le> n")
  case True
  then obtain m where "n = m + 8" by (metis le_add_diff_inverse2)
  then show ?thesis by simp
next
  case False
  assume "0 < n"
  with False have "(n + 7) div 8 = 1" by simp
  with False show ?thesis by simp
qed

lemma pack_line_step:
  assumes "bs \<noteq> []"
  shows "pack_line bs = pack_byte (take 8 bs) # pack_line (drop 8 bs)"
proof -
  from assms have "0 < length bs" by simp
  then have "(length bs + 7) div 8 = Suc ((length bs - 8 + 7) div 8)" by (rule ceil8_Suc)
  then show ?thesis
    by (simp only: pack_line_def split_rows_Suc list.map length_drop)
qed

lemma length_pack_line [simp]: "length (pack_line bs) = (length bs + 7) div 8"
  by (simp add: pack_line_def)


lemma pad_step:
  assumes "8 \<le> (n::nat)"
  shows "8 * ((n + 7) div 8) - n = 8 * ((n - 8 + 7) div 8) - (n - 8)"
proof -
  define k where "k = (n - 8 + 7) div 8"
  from assms have "(n + 7) div 8 = Suc k" unfolding k_def by (intro ceil8_Suc) simp
  with assms show ?thesis unfolding k_def [symmetric] by simp
qed

lemma unpack_pack_line:
  "concat (map unpack_byte (pack_line bs))
   = map (\<lambda>v. of_bool (v \<noteq> 0)) bs @ replicate (8 * ((length bs + 7) div 8) - length bs) 0"
proof (induction bs rule: length_induct)
  case (1 bs)
  show ?case
  proof (cases "bs = []")
    case True
    then show ?thesis by simp
  next
    case False
    then have "length (drop 8 bs) < length bs" by simp
    with 1 have IH: "concat (map unpack_byte (pack_line (drop 8 bs)))
       = map (\<lambda>v. of_bool (v \<noteq> 0)) (drop 8 bs)
         @ replicate (8 * ((length (drop 8 bs) + 7) div 8) - length (drop 8 bs)) 0"
      by blast
    have hd: "unpack_byte (pack_byte (take 8 bs))
       = map (\<lambda>v. of_bool (v \<noteq> 0)) (take 8 bs) @ replicate (8 - length (take 8 bs)) 0"
      by (rule unpack_pack_byte) simp
    have step: "concat (map unpack_byte (pack_line bs))
       = unpack_byte (pack_byte (take 8 bs)) @ concat (map unpack_byte (pack_line (drop 8 bs)))"
      by (simp only: pack_line_step [OF False] list.map concat.simps)
    show ?thesis
    proof (cases "8 \<le> length bs")
      case True
      then have len: "length (take 8 bs) = 8" by simp
      have "map (\<lambda>v. of_bool (v \<noteq> 0)) (take 8 bs) @ map (\<lambda>v. of_bool (v \<noteq> 0)) (drop 8 bs)
          = map (\<lambda>v. (of_bool (v \<noteq> 0) :: int)) bs"
        by (simp only: map_append [symmetric] append_take_drop_id)
      then show ?thesis
        by (simp only: step IH hd len pad_step [OF True] length_drop diff_self_eq_0
            replicate_0 append_Nil2 append_assoc [symmetric])
    next
      case short: False
      moreover from False have "0 < length bs" by simp
      ultimately have one: "(length bs + 7) div 8 = 1" by (intro ceil8_small)
      from short have t: "take 8 bs = bs" and d: "drop 8 bs = []" by simp_all
      show ?thesis
        by (simp only: step hd [unfolded t] t d one pack_line_Nil list.map concat.simps
            append_Nil2 mult_1_right)
    qed
  qed
qed

lemma binary_normal:
  "list_all (\<lambda>v. v = 0 \<or> v = 1) bs \<Longrightarrow> map (\<lambda>v. of_bool (v \<noteq> 0)) bs = (bs :: int list)"
  by (induction bs) auto

lemma unpack_line_pack_line:
  assumes "list_all (\<lambda>v. v = 0 \<or> v = 1) bs"
  shows "unpack_line (Some (length bs)) (pack_line bs) = bs"
  by (simp add: unpack_line_def unpack_pack_line binary_normal [OF assms])

section \<open>Packing and unpacking arrays\<close>

lemma prod_list_butlast_last: "s \<noteq> [] \<Longrightarrow> prod_list s = prod_list (butlast s) * last s"
proof -
  assume "s \<noteq> []"
  then have "prod_list s = prod_list (butlast s @ [last s])" by simp
  also have "\<dots> = prod_list (butlast s) * last s" by (simp only: prod_list.append) simp
  finally show ?thesis .
qed

lemma set_take_drop: "set (take n (drop m xs)) \<subseteq> set xs"
  by (rule order_trans [OF set_take_subset set_drop_subset])

lemma list_all_take_drop: "list_all P xs \<Longrightarrow> list_all P (take n (drop m xs))"
  unfolding list_all_iff using set_take_drop [of n m xs] by blast

lemma split_rows_all: "list_all P xs \<Longrightarrow> list_all (list_all P) (split_rows r n xs)"
proof -
  assume "list_all P xs"
  then have "\<And>i. list_all P (take n (drop (i * n) xs))" by (rule list_all_take_drop)
  then show ?thesis unfolding split_rows_def by (simp add: list_all_iff)
qed

lemma list_all_mono': "list_all P xs \<Longrightarrow> (\<And>x. P x \<Longrightarrow> Q x) \<Longrightarrow> list_all Q xs"
  by (induction xs) simp_all

lemma packed_rows:
  assumes "length xs = r * n"
  shows "split_rows r ((n + 7) div 8) (concat (map pack_line (split_rows r n xs)))
       = map pack_line (split_rows r n xs)"
proof (rule split_rows_concat)
  show "length (map pack_line (split_rows r n xs)) = r" by simp
  from split_rows_lengths [OF assms]
  show "list_all (\<lambda>l. length l = (n + 7) div 8) (map pack_line (split_rows r n xs))"
    by (simp add: list_all_iff)
qed

lemma unpack_packed_rows:
  assumes len: "length xs = r * n" and bin: "list_all (\<lambda>v. v = 0 \<or> v = 1) xs"
  shows "concat (map (unpack_line (Some n)) (map pack_line (split_rows r n xs))) = xs"
proof -
  have "map (\<lambda>l. unpack_line (Some n) (pack_line l)) (split_rows r n xs) = split_rows r n xs"
  proof (rule map_idI)
    fix l assume l: "l \<in> set (split_rows r n xs)"
    with split_rows_lengths [OF len] have "length l = n"
      by (simp add: list_all_iff)
    moreover from l split_rows_all [OF bin] have "list_all (\<lambda>v. v = 0 \<or> v = 1) l"
      by (simp add: list_all_iff)
    ultimately show "unpack_line (Some n) (pack_line l) = l"
      using unpack_line_pack_line [of l] by simp
  qed
  then have "map (unpack_line (Some n)) (map pack_line (split_rows r n xs)) = split_rows r n xs"
    by (simp only: map_map o_def)
  then show ?thesis
    by (simp only: concat_split_rows [OF len])
qed

lemma unpackbits_packbits_last:
  assumes wf: "wf_array y" and bin: "is_binary y" and nonempty: "shape y \<noteq> []"
  shows "unpackbits_last (packbits_last y) (Some (last (shape y))) = y"
proof -
  define r where "r = prod_list (butlast (shape y))"
  define n where "n = last (shape y)"
  from wf nonempty have len: "length (buf y) = r * n"
    by (simp add: wf_array_def r_def n_def prod_list_butlast_last)
  from bin have bin': "list_all (\<lambda>v. v = 0 \<or> v = 1) (buf y)" by (simp add: is_binary_def)
  have p: "packbits_last y = \<lparr>shape = butlast (shape y) @ [(n + 7) div 8],
      buf = concat (map pack_line (split_rows r n (buf y)))\<rparr>"
    using nonempty by (simp add: packbits_last_def at_least_1d_def Let_def r_def n_def)
  have "unpackbits_last (packbits_last y) (Some n)
      = \<lparr>shape = butlast (shape y) @ [n],
         buf = concat (map (unpack_line (Some n))
                 (split_rows r ((n + 7) div 8) (concat (map pack_line (split_rows r n (buf y))))))\<rparr>"
    by (simp add: p unpackbits_last_def at_least_1d_def Let_def r_def)
  also have "\<dots> = \<lparr>shape = butlast (shape y) @ [n], buf = buf y\<rparr>"
    by (simp only: packed_rows [OF len] unpack_packed_rows [OF len bin'])
  also have "\<dots> = y"
    using nonempty by (simp add: n_def)
  finally show ?thesis by (simp only: n_def)
qed

lemma verify_binary:
  "is_binary y \<Longrightarrow> verify_array_like_types_and_values y = Inr y"
proof -
  assume "is_binary y"
  then have "list_all (\<lambda>v. 0 \<le> v \<and> v < 2) (buf y)"
    unfolding is_binary_def by (rule list_all_mono') auto
  then show ?thesis by (simp add: verify_array_like_types_and_values_def)
qed

lemma ndarray_eta: "\<lparr>shape = shape y, buf = buf y\<rparr> = (y :: 'a ndarray)"
  by (cases y) simp

lemma np_array_0: "np_array y 0 = y"
  by (cases y) (simp add: np_array_def)

lemma pack_binary:
  "is_binary y \<Longrightarrow>
   GF2_astype_GF2BP y = Inr \<lparr>packed = packbits_last y, unpacked_shape = Some (shape y)\<rparr>"
  by (simp only: GF2_astype_GF2BP_def GF2BP_new_def verify_binary np_array_0 array_like.case
      bind_result.simps)

lemma unpack_packed:
  assumes "wf_array y" and "is_binary y" and "shape y \<noteq> []"
  shows "GF2BP_astype \<lparr>packed = packbits_last y, unpacked_shape = Some (shape y)\<rparr> To_GF2 = Inr y"
proof -
  have "GF2BP_astype \<lparr>packed = packbits_last y, unpacked_shape = Some (shape y)\<rparr> To_GF2
      = GF2_new (NdArray (unpackbits_last (packbits_last y) (Some (last (shape y)))))"
    using assms(3) by (simp add: GF2BP_astype_def get_unpacked_shape_def)
  also have "\<dots> = GF2_new (NdArray y)"
    by (simp only: unpackbits_packbits_last [OF assms])
  also have "\<dots> = verify_array_like_types_and_values y"
    by (simp add: GF2_new_def ndarray_eta)
  finally show ?thesis
    by (simp only: verify_binary [OF assms(2)])
qed

lemma roundtrip:
  assumes "wf_array y" and "is_binary y" and "shape y \<noteq> []"
  shows "pack_then_unpack y = Inr y"
  by (simp only: pack_then_unpack_def pack_binary [OF assms(2)] bind_result.simps
      unpack_packed [OF assms])

section \<open>Bits of a product\<close>

lemma unpack_byte_and:
  "unpack_byte (a AND b) = map2 (*) (unpack_byte a) (unpack_byte b)"
  unfolding unpack_byte_def map2_map_map
  by (simp add: bit_and_iff del: upt.simps)

lemma unpack_bytes_and:
  "length u = length v \<Longrightarrow>
   concat (map unpack_byte (map2 (AND) u v))
   = map2 (*) (concat (map unpack_byte u)) (concat (map unpack_byte v))"
proof (induction u v rule: list_induct2)
  case Nil
  then show ?case by simp
next
  case (Cons a u b v)
  then show ?case by (simp add: unpack_byte_and)
qed

lemma sum_list_map2_pad:
  fixes xs ys :: "int list"
  shows "length xs = length ys \<Longrightarrow>
   sum_list (map2 (*) (xs @ replicate p 0) (ys @ replicate p 0)) = sum_list (map2 (*) xs ys)"
proof (induction xs ys rule: list_induct2)
  case Nil
  show ?case by (induction p) simp_all
next
  case (Cons x xs y ys)
  then show ?case by simp
qed

lemma binary_unpack_byte: "list_all (\<lambda>v. v = 0 \<or> v = 1) (unpack_byte w)"
  by (simp add: unpack_byte_def list_all_iff)

lemma binary_unpack_bytes: "list_all (\<lambda>v. v = 0 \<or> v = 1) (concat (map unpack_byte ws))"
  by (induction ws) (simp_all add: binary_unpack_byte)

lemma xor_mod2: "(a XOR b) mod 2 = (a + b) mod (2 :: int)"
proof -
  have "even (a XOR b) = even (a + b)" by (simp add: even_xor_iff)
  then show ?thesis by (simp add: mod2_eq_if)
qed

lemma foldl_xor_mod2: "foldl (XOR) a xs mod 2 = (a + sum_list xs) mod (2 :: int)"
proof (induction xs arbitrary: a)
  case Nil
  then show ?case by simp
next
  case (Cons x xs)
  have "foldl (XOR) (a XOR x) xs mod 2 = ((a XOR x) + sum_list xs) mod 2" by (rule Cons.IH)
  also have "\<dots> = ((a XOR x) mod 2 + sum_list xs) mod 2" by (simp add: mod_add_left_eq)
  also have "\<dots> = ((a + x) mod 2 + sum_list xs) mod 2" by (simp only: xor_mod2)
  also have "\<dots> = (a + x + sum_list xs) mod 2" by (simp add: mod_add_left_eq)
  finally show ?case by (simp add: add.assoc)
qed

lemma foldl_xor_binary:
  "(a = 0 \<or> a = 1) \<Longrightarrow> list_all (\<lambda>v. v = 0 \<or> v = 1) xs \<Longrightarrow>
   foldl (XOR) a xs = 0 \<or> foldl (XOR) a xs = (1 :: int)"
proof (induction xs arbitrary: a)
  case Nil
  then show ?case by simp
next
  case (Cons x xs)
  from Cons.prems have "a XOR x = 0 \<or> a XOR x = 1" by auto
  moreover from Cons.prems have "list_all (\<lambda>v. v = 0 \<or> v = 1) xs" by simp
  ultimately show ?case using Cons.IH [of "a XOR x"] by simp
qed

lemma xor_reduce_bits:
  assumes "list_all (\<lambda>v. v = 0 \<or> v = 1) xs"
  shows "foldl (XOR) 0 xs = sum_list xs mod (2 :: int)"
proof -
  from foldl_xor_binary [of 0 xs] assms
  have "foldl (XOR) 0 xs = 0 \<or> foldl (XOR) 0 xs = (1 :: int)" by simp
  then have "foldl (XOR) 0 xs = foldl (XOR) 0 xs mod 2" by auto
  also have "\<dots> = sum_list xs mod 2" using foldl_xor_mod2 [of 0 xs] by simp
  finally show ?thesis .
qed

text \<open>The bits of the AND of two packed lines, summed: the dot product of the lines.\<close>

lemma and_bits_sum:
  assumes len: "length xs = length ys"
    and bx: "list_all (\<lambda>v. v = 0 \<or> v = 1) xs" and "list_all (\<lambda>v. v = 0 \<or> v = 1) ys"
  shows "sum_list (concat (map unpack_byte (map2 (AND) (pack_line xs) (pack_line ys))))
       = sum_list (map2 (*) xs ys)"
proof -
  have l: "length (pack_line xs) = length (pack_line ys)" by (simp add: len)
  show ?thesis
    by (simp only: unpack_bytes_and [OF l] unpack_pack_line binary_normal [OF assms(2)]
        binary_normal [OF assms(3)] len [symmetric] sum_list_map2_pad [OF len])
qed

lemma sum_list_unpack_bytes:
  "sum_list (map (\<lambda>w. sum_list (unpack_byte w)) ws) = sum_list (concat (map unpack_byte ws))"
  by (induction ws) simp_all

lemma vector_strategy:
  assumes "length xs = length ys"
    and "list_all (\<lambda>v. v = 0 \<or> v = 1) xs" and "list_all (\<lambda>v. v = 0 \<or> v = 1) ys"
  shows "foldl (XOR) 0 (unpack_line None (map2 (AND) (pack_line xs) (pack_line ys)))
       = sum_list (map2 (*) xs ys) mod 2"
proof -
  have "unpack_line None (map2 (AND) (pack_line xs) (pack_line ys))
      = concat (map unpack_byte (map2 (AND) (pack_line xs) (pack_line ys)))"
    by (simp add: unpack_line_def)
  then show ?thesis
    by (simp only: xor_reduce_bits [OF binary_unpack_bytes] and_bits_sum [OF assms])
qed

lemma matrix_strategy:
  assumes "length xs = length ys"
    and "list_all (\<lambda>v. v = 0 \<or> v = 1) xs" and "list_all (\<lambda>v. v = 0 \<or> v = 1) ys"
  shows "foldl (XOR) 0 (map (\<lambda>w. sum_list (unpack_byte w))
                          (map2 (AND) (pack_line xs) (pack_line ys))) mod 2
       = sum_list (map2 (*) xs ys) mod 2"
proof -
  define ws where "ws = map2 (AND) (pack_line xs) (pack_line ys)"
  have "foldl (XOR) 0 (map (\<lambda>w. sum_list (unpack_byte w)) ws) mod 2
      = sum_list (map (\<lambda>w. sum_list (unpack_byte w)) ws) mod 2"
    using foldl_xor_mod2 [of 0 "map (\<lambda>w. sum_list (unpack_byte w)) ws"] by simp
  also have "sum_list (map (\<lambda>w. sum_list (unpack_byte w)) ws)
      = sum_list (concat (map unpack_byte ws))"
    by (rule sum_list_unpack_bytes)
  finally show ?thesis
    unfolding ws_def by (simp only: and_bits_sum [OF assms])
qed

lemma dot_nth:
  fixes xs ys :: "int list"
  assumes "length xs = n" and "length ys = n"
  shows "sum_list (map2 (*) xs ys) = (\<Sum>k\<leftarrow>[0..<n]. xs ! k * ys ! k)"
proof -
  have "map2 (*) xs ys = map (\<lambda>k. xs ! k * ys ! k) [0..<n]"
    using assms by (intro nth_equalityI) simp_all
  then show ?thesis by simp
qed

section \<open>Columns and the broadcast of a line\<close>

lemma length_concat_uniform:
  "list_all (\<lambda>l. length l = n) xss \<Longrightarrow> length (concat xss) = length xss * n"
  by (induction xss) simp_all

lemma length_columns [simp]: "length (columns c ls) = c"
  by (simp add: columns_def)

lemma columns_lengths: "list_all (\<lambda>l. length l = length ls) (columns c ls)"
  by (simp add: columns_def list_all_iff)

lemma nth_columns: "j < c \<Longrightarrow> columns c ls ! j = map (\<lambda>l. l ! j) ls"
  by (simp add: columns_def)

lemma split_rows_columns:
  "length ls = c \<Longrightarrow> split_rows k c (concat (columns k ls)) = columns k ls"
  using columns_lengths [of ls k] by (intro split_rows_concat) simp_all

text \<open>Transposing twice: column \<open>j\<close> of the columns of lines is line \<open>j\<close>.\<close>

lemma column_of_columns:
  assumes "j < length ls" and "length (ls ! j) = k"
  shows "map (\<lambda>l. l ! j) (columns k ls) = ls ! j"
proof -
  have "map (\<lambda>l. l ! j) (columns k ls) = map (\<lambda>i. (ls ! j) ! i) [0..<k]"
    using assms(1) by (simp add: columns_def)
  also have "\<dots> = ls ! j"
    using assms(2) map_nth [of "ls ! j"] by simp
  finally show ?thesis .
qed

lemma map2_concat_replicate:
  "list_all (\<lambda>l. length l = length cb) ras \<Longrightarrow>
   map2 f (concat ras) (concat (replicate (length ras) cb))
   = concat (map (\<lambda>ra. map2 f ra cb) ras)"
  by (induction ras) simp_all

lemma broadcast_line:
  assumes "length cb = K"
  shows "broadcast_buf [1, K] [M, K] cb = concat (replicate M cb)"
proof -
  have one: "broadcast_buf [K] [K] cb = cb"
    by (rule broadcast_buf_same) (simp add: assms)
  have "broadcast_buf [1, K] [M, K] cb
      = concat (map (\<lambda>i. broadcast_buf [K] [K]
          (take (prod_list [K]) (drop ((if (1 :: nat) = 1 then 0 else i) * prod_list [K]) cb)))
          [0..<M])"
    by (rule broadcast_buf.simps(1))
  also have "\<dots> = concat (map (\<lambda>i. broadcast_buf [K] [K] cb) [0..<M])"
    using assms by simp
  also have "\<dots> = concat (map (\<lambda>i. cb) [0..<M])"
    by (simp only: one)
  also have "\<dots> = concat (replicate M cb)"
    by (simp add: map_replicate_const)
  finally show ?thesis .
qed

lemma and_rows:
  assumes M: "length ras = M" and K: "list_all (\<lambda>l. length l = K) ras" and cb: "length cb = K"
  shows "binary_ufunc (AND) \<lparr>shape = [M, K], buf = concat ras\<rparr> \<lparr>shape = [K], buf = cb\<rparr>
       = Inr \<lparr>shape = [M, K], buf = concat (map (\<lambda>ra. map2 (AND) ra cb) ras)\<rparr>"
proof -
  have sh: "broadcast_shapes [M, K] [K] = Some [M, K]"
    by (simp add: broadcast_shapes_def)
  have wf: "wf_array \<lparr>shape = [M, K], buf = concat ras\<rparr>"
    by (simp add: wf_array_def length_concat_uniform [OF K] M)
  have a: "broadcast_to [M, K] \<lparr>shape = [M, K], buf = concat ras\<rparr>
      = \<lparr>shape = [M, K], buf = concat ras\<rparr>"
    using broadcast_to_same [OF wf] by simp
  have b: "buf (broadcast_to [M, K] \<lparr>shape = [K], buf = cb\<rparr>) = concat (replicate M cb)"
    using broadcast_line [OF cb, of M] by (simp add: broadcast_to_def del: broadcast_buf.simps)
  from K cb have K': "list_all (\<lambda>l. length l = length cb) ras" by simp
  show ?thesis
    unfolding binary_ufunc_def
    by (simp only: ndarray.simps sh option.case a b map2_concat_replicate [OF K', unfolded M])
qed

section \<open>Packing by shape\<close>

lemma row_length:
  assumes "length xs = r * n" and "i < r"
  shows "length (take n (drop (i * n) xs)) = n"
proof -
  from assms(2) have "Suc i \<le> r" by simp
  then have "Suc i * n \<le> r * n" by (rule mult_le_mono1)
  with assms(1) show ?thesis by simp
qed

lemma row_nth:
  assumes "length xs = r * n" and "i < r" and "k < n"
  shows "take n (drop (i * n) xs) ! k = xs ! (i * n + k)"
proof -
  from assms(2) have "i * n \<le> r * n" by (intro mult_le_mono1) simp
  with assms(1) have "i * n \<le> length xs" by simp
  with assms(3) show ?thesis by (simp add: nth_drop)
qed

lemma column_of_rows:
  assumes "length xs = n * c" and "j < c"
  shows "map (\<lambda>l. l ! j) (split_rows n c xs) = map (\<lambda>i. xs ! (i * c + j)) [0..<n]"
proof -
  have "map (\<lambda>i. take c (drop (i * c) xs) ! j) [0..<n] = map (\<lambda>i. xs ! (i * c + j)) [0..<n]"
  proof (intro map_cong refl)
    fix i assume "i \<in> set [0..<n]"
    then have "i < n" by simp
    from row_nth [OF assms(1) this assms(2)]
    show "take c (drop (i * c) xs) ! j = xs ! (i * c + j)" .
  qed
  then show ?thesis by (simp add: split_rows_def o_def)
qed

lemma single_column:
  assumes "length xs = n"
  shows "columns 1 (split_rows n 1 xs) = [xs]"
proof -
  have "map (\<lambda>l. l ! 0) (split_rows n 1 xs) = map (\<lambda>i. xs ! (i * 1 + 0)) [0..<n]"
    by (rule column_of_rows) (simp_all add: assms)
  also have "\<dots> = map ((!) xs) [0..<length xs]" using assms by simp
  also have "\<dots> = xs" by (rule map_nth)
  finally show ?thesis by (simp add: columns_def)
qed

lemma columns_single:
  assumes "length pl = k"
  shows "concat (columns k [pl]) = pl"
proof -
  have "concat (columns k [pl]) = map ((!) pl) [0..<length pl]"
    using assms by (simp add: columns_def concat_map_singleton)
  then show ?thesis by (simp only: map_nth)
qed

lemma packbits_last_2d:
  "shape A = [M, N] \<Longrightarrow>
   packbits_last A = \<lparr>shape = [M, (N + 7) div 8],
                      buf = concat (map pack_line (split_rows M N (buf A)))\<rparr>"
  by (simp add: packbits_last_def at_least_1d_def)

lemma packbits_first_1d:
  assumes "shape B = [N]" and "length (buf B) = N"
  shows "packbits_first B = \<lparr>shape = [(N + 7) div 8], buf = pack_line (buf B)\<rparr>"
proof -
  have "packbits_first B
      = \<lparr>shape = [(N + 7) div 8],
         buf = concat (columns ((N + 7) div 8)
                 (map pack_line (columns 1 (split_rows N 1 (buf B)))))\<rparr>"
    using assms(1) by (simp add: packbits_first_def at_least_1d_def Let_def)
  also have "\<dots> = \<lparr>shape = [(N + 7) div 8], buf = pack_line (buf B)\<rparr>"
    using assms(2) by (simp only: single_column [OF assms(2)] list.map columns_single
        length_pack_line)
  finally show ?thesis .
qed

lemma packbits_first_2d:
  "shape B = [N, P] \<Longrightarrow>
   packbits_first B
   = \<lparr>shape = [(N + 7) div 8, P],
      buf = concat (columns ((N + 7) div 8)
              (map pack_line (columns P (split_rows N P (buf B)))))\<rparr>"
  by (simp add: packbits_first_def at_least_1d_def Let_def)

lemma packed_rows_facts:
  assumes "length xs = M * N"
  shows "length (map pack_line (split_rows M N xs)) = M"
    and "list_all (\<lambda>l. length l = (N + 7) div 8) (map pack_line (split_rows M N xs))"
  using split_rows_lengths [OF assms] by (simp_all add: list_all_iff)

lemma length_unpack_line_None: "length (unpack_line None ws) = 8 * length ws"
  by (induction ws) (simp_all add: unpack_line_def)

section \<open>The vector case\<close>

text \<open>The product as the code computes it, before it is compared with the reference.\<close>

lemma binary_mod2: "list_all (\<lambda>v. v = 0 \<or> v = 1) (map (\<lambda>x. f x mod (2 :: int)) xs)"
  by (induction xs) auto

lemma matmul_vector:
  assumes wfA: "wf_array A" and binA: "is_binary A" and wfB: "wf_array B" and binB: "is_binary B"
    and shA: "shape A = [M, N]" and shB: "shape B = [N]"
  shows "packed_matmul_unpacked A B
       = Inr \<lparr>shape = [M],
              buf = map (\<lambda>row. sum_list (map2 (*) row (buf B)) mod 2)
                        (split_rows M N (buf A))\<rparr>"
proof -
  define K where "K = (N + 7) div 8"
  define rows where "rows = split_rows M N (buf A)"
  define ras where "ras = map pack_line rows"
  define cb where "cb = pack_line (buf B)"
  define V where "V = \<lparr>shape = [M],
      buf = map (\<lambda>row. sum_list (map2 (*) row (buf B)) mod 2) rows\<rparr>"
  from wfA shA have lenA: "length (buf A) = M * N" by (simp add: wf_array_def)
  from wfB shB have lenB: "length (buf B) = N" by (simp add: wf_array_def)
  from binA have bA: "list_all (\<lambda>v. v = 0 \<or> v = 1) (buf A)" by (simp add: is_binary_def)
  from binB have bB: "list_all (\<lambda>v. v = 0 \<or> v = 1) (buf B)" by (simp add: is_binary_def)
  have ras_len: "length ras = M" and ras_K: "list_all (\<lambda>l. length l = K) ras"
    unfolding ras_def rows_def K_def by (rule packed_rows_facts [OF lenA])+
  have cb_len: "length cb = K" by (simp add: cb_def K_def lenB)
  have pa: "GF2_astype_GF2BP A
      = Inr \<lparr>packed = \<lparr>shape = [M, K], buf = concat ras\<rparr>, unpacked_shape = Some [M, N]\<rparr>"
    by (simp only: pack_binary [OF binA] packbits_last_2d [OF shA] shA K_def ras_def rows_def)
  have pb: "GF2_astype_GF2BP B = Inr \<lparr>packed = packbits_last B, unpacked_shape = Some [N]\<rparr>"
    by (simp only: pack_binary [OF binB] shB)
  have "unpackbits_last (packbits_last B) (Some (last (shape B))) = B"
    by (rule unpackbits_packbits_last [OF wfB binB]) (simp add: shB)
  then have unB: "unpackbits_last (packbits_last B) (Some N) = B" by (simp add: shB)
  have rb: "packbits_first B = \<lparr>shape = [K], buf = cb\<rparr>"
    unfolding K_def cb_def by (rule packbits_first_1d [OF shB lenB])
  define ands where "ands = map (\<lambda>ra. map2 (AND) ra cb) ras"
  have ab: "binary_ufunc (AND) \<lparr>shape = [M, K], buf = concat ras\<rparr> \<lparr>shape = [K], buf = cb\<rparr>
      = Inr \<lparr>shape = [M, K], buf = concat ands\<rparr>"
    unfolding ands_def by (rule and_rows [OF ras_len ras_K cb_len])
  have ands_len: "length ands = M" by (simp add: ands_def ras_len)
  have ands_K: "list_all (\<lambda>l. length l = K) ands"
    using ras_K cb_len by (simp add: ands_def list_all_iff)
  have un: "unpackbits_last \<lparr>shape = [M, K], buf = concat ands\<rparr> None
      = \<lparr>shape = [M, 8 * K], buf = concat (map (unpack_line None) ands)\<rparr>"
    by (simp add: unpackbits_last_def at_least_1d_def split_rows_concat [OF ands_len ands_K])
  have bits_8K: "list_all (\<lambda>l. length l = 8 * K) (map (unpack_line None) ands)"
    using ands_K by (simp add: list_all_iff length_unpack_line_None)
  have red: "bitwise_xor_reduce \<lparr>shape = [M, 8 * K], buf = concat (map (unpack_line None) ands)\<rparr>
      = \<lparr>shape = [M], buf = map (foldl (XOR) 0) (map (unpack_line None) ands)\<rparr>"
    using split_rows_concat [OF _ bits_8K, of M] ands_len
    by (simp add: bitwise_xor_reduce_def)
  have val: "map (foldl (XOR) 0) (map (unpack_line None) ands)
      = map (\<lambda>row. sum_list (map2 (*) row (buf B)) mod 2) rows"
  proof -
    have "map (\<lambda>row. foldl (XOR) 0 (unpack_line None (map2 (AND) (pack_line row) (pack_line (buf B))))) rows
        = map (\<lambda>row. sum_list (map2 (*) row (buf B)) mod 2) rows"
    proof (intro map_cong refl)
      fix row assume row: "row \<in> set rows"
      with split_rows_lengths [OF lenA] have "length row = length (buf B)"
        by (simp add: rows_def list_all_iff lenB)
      moreover from row split_rows_all [OF bA, of M N]
      have "list_all (\<lambda>v. v = 0 \<or> v = 1) row"
        by (simp add: rows_def list_all_iff)
      ultimately show "foldl (XOR) 0 (unpack_line None (map2 (AND) (pack_line row) (pack_line (buf B))))
          = sum_list (map2 (*) row (buf B)) mod 2"
        using bB by (rule vector_strategy)
    qed
    then show ?thesis by (simp add: ands_def ras_def cb_def o_def)
  qed
  have pipe: "bitwise_xor_reduce (unpackbits_last \<lparr>shape = [M, K], buf = concat ands\<rparr> None) = V"
    by (simp only: un red val V_def)
  have call: "matmul_ufunc_bitpacked_call
        (BitPacked \<lparr>packed = \<lparr>shape = [M, K], buf = concat ras\<rparr>, unpacked_shape = Some [M, N]\<rparr>)
        (BitPacked \<lparr>packed = packbits_last B, unpacked_shape = Some [N]\<rparr>)
      = Inr \<lparr>packed = packbits_last V, unpacked_shape = Some (shape V)\<rparr>"
    unfolding matmul_ufunc_bitpacked_call_def
    by (simp add: Let_def get_unpacked_shape_def unB rb ab pipe) (simp add: V_def)
  have wfV: "wf_array V" by (simp add: V_def wf_array_def rows_def)
  have binV: "is_binary V" unfolding V_def is_binary_def by (simp only: ndarray.simps binary_mod2)
  have "packed_matmul_unpacked A B = Inr V"
    unfolding packed_matmul_unpacked_def packed_matmul_def
    by (simp only: pa pb bind_result.simps call unpack_packed [OF wfV binV] V_def ndarray.simps)
      (simp add: unpack_packed [OF wfV binV, unfolded V_def, simplified])
  then show ?thesis by (simp only: V_def rows_def)
qed

section \<open>The loop of the matrix case\<close>

lemma set_column_rows:
  assumes "length rws = M" and "list_all (\<lambda>l. length l = P) rws"
  shows "set_column \<lparr>shape = [M, P], buf = concat rws\<rparr> j col
       = \<lparr>shape = [M, P], buf = concat (map2 (\<lambda>l v. l[j := v]) rws col)\<rparr>"
  by (simp add: set_column_def split_rows_concat [OF assms])

lemma matmul_loop_fold:
  assumes "\<And>j. j \<in> set js \<Longrightarrow> matmul_column a b j = Inr (cv j)"
  shows "matmul_loop a b js out = Inr (fold (\<lambda>j o'. set_column o' j (cv j)) js out)"
  using assms
proof (induction js arbitrary: out)
  case Nil
  show ?case by simp
next
  case (Cons j js)
  have "matmul_column a b j = Inr (cv j)" by (rule Cons.prems) simp
  moreover have "matmul_loop a b js (set_column out j (cv j))
      = Inr (fold (\<lambda>j o'. set_column o' j (cv j)) js (set_column out j (cv j)))"
    by (rule Cons.IH) (simp add: Cons.prems)
  ultimately show ?case by simp
qed

lemma list_update_map_upt:
  assumes "p < P"
  shows "(map f [0..<P])[p := v] = map (\<lambda>j. if j = p then v else f j) [0..<P]"
  using assms by (intro nth_equalityI) (simp_all add: nth_list_update)

lemma zeros_rows: "replicate (M * P) (0 :: int) = concat (map (\<lambda>i. map (\<lambda>j. 0) [0..<P]) [0..<M])"
proof -
  have "concat (replicate M (replicate P (0 :: int))) = replicate (M * P) 0"
    by (induction M) (simp_all add: replicate_add)
  then show ?thesis by (simp add: map_replicate_const)
qed

lemma fold_columns:
  fixes c :: "nat \<Rightarrow> nat \<Rightarrow> int"
  assumes "p \<le> P"
  shows "fold (\<lambda>j o'. set_column o' j (map (\<lambda>i. c i j) [0..<M])) [0..<p] (GF2_Zeros [M, P])
       = \<lparr>shape = [M, P],
          buf = concat (map (\<lambda>i. map (\<lambda>j. if j < p then c i j else 0) [0..<P]) [0..<M])\<rparr>"
  using assms
proof (induction p)
  case 0
  show ?case using zeros_rows [of M P] by (simp add: GF2_Zeros_def)
next
  case (Suc p)
  then have p: "p < P" and IH: "fold (\<lambda>j o'. set_column o' j (map (\<lambda>i. c i j) [0..<M])) [0..<p]
        (GF2_Zeros [M, P])
      = \<lparr>shape = [M, P],
         buf = concat (map (\<lambda>i. map (\<lambda>j. if j < p then c i j else 0) [0..<P]) [0..<M])\<rparr>"
    by simp_all
  define rws where "rws = map (\<lambda>i. map (\<lambda>j. if j < p then c i j else 0) [0..<P]) [0..<M]"
  have len: "length rws = M" and all: "list_all (\<lambda>l. length l = P) rws"
    by (simp_all add: rws_def list_all_iff)
  have "map2 (\<lambda>l v. l[p := v]) rws (map (\<lambda>i. c i p) [0..<M])
      = map (\<lambda>i. (map (\<lambda>j. if j < p then c i j else 0) [0..<P])[p := c i p]) [0..<M]"
    unfolding rws_def by (rule map2_map_map)
  also have "\<dots> = map (\<lambda>i. map (\<lambda>j. if j < Suc p then c i j else 0) [0..<P]) [0..<M]"
  proof (intro map_cong refl)
    fix i
    have "(map (\<lambda>j. if j < p then c i j else 0) [0..<P])[p := c i p]
        = map (\<lambda>j. if j = p then c i p else if j < p then c i j else 0) [0..<P]"
      by (rule list_update_map_upt [OF p])
    also have "\<dots> = map (\<lambda>j. if j < Suc p then c i j else 0) [0..<P]"
      by (intro map_cong refl) (auto simp: less_Suc_eq)
    finally show "(map (\<lambda>j. if j < p then c i j else 0) [0..<P])[p := c i p]
        = map (\<lambda>j. if j < Suc p then c i j else 0) [0..<P]" .
  qed
  finally have step: "map2 (\<lambda>l v. l[p := v]) rws (map (\<lambda>i. c i p) [0..<M])
      = map (\<lambda>i. map (\<lambda>j. if j < Suc p then c i j else 0) [0..<P]) [0..<M]" .
  have "fold (\<lambda>j o'. set_column o' j (map (\<lambda>i. c i j) [0..<M])) [0..<Suc p] (GF2_Zeros [M, P])
      = set_column \<lparr>shape = [M, P], buf = concat rws\<rparr> p (map (\<lambda>i. c i p) [0..<M])"
    by (simp add: IH rws_def)
  also have "\<dots> = \<lparr>shape = [M, P],
      buf = concat (map2 (\<lambda>l v. l[p := v]) rws (map (\<lambda>i. c i p) [0..<M]))\<rparr>"
    by (rule set_column_rows [OF len all])
  finally show ?case by (simp only: step)
qed

section \<open>One column of the matrix case\<close>

lemma rows_dot:
  fixes xs ys :: "int list"
  assumes lenA: "length xs = M * N" and lenB: "length ys = N"
  shows "map (\<lambda>row. sum_list (map2 (*) row ys) mod 2) (split_rows M N xs)
       = map (\<lambda>i. (\<Sum>k\<leftarrow>[0..<N]. xs ! (i * N + k) * ys ! k) mod 2) [0..<M]"
proof -
  have "map (\<lambda>i. sum_list (map2 (*) (take N (drop (i * N) xs)) ys) mod 2) [0..<M]
      = map (\<lambda>i. (\<Sum>k\<leftarrow>[0..<N]. xs ! (i * N + k) * ys ! k) mod 2) [0..<M]"
  proof (intro map_cong refl)
    fix i assume "i \<in> set [0..<M]"
    then have i: "i < M" by simp
    have "sum_list (map2 (*) (take N (drop (i * N) xs)) ys)
        = (\<Sum>k\<leftarrow>[0..<N]. take N (drop (i * N) xs) ! k * ys ! k)"
      by (rule dot_nth [OF row_length [OF lenA i] lenB])
    also have "map (\<lambda>k. take N (drop (i * N) xs) ! k * ys ! k) [0..<N]
        = map (\<lambda>k. xs ! (i * N + k) * ys ! k) [0..<N]"
    proof (intro map_cong refl)
      fix k assume "k \<in> set [0..<N]"
      then have "k < N" by simp
      from row_nth [OF lenA i this]
      show "take N (drop (i * N) xs) ! k * ys ! k = xs ! (i * N + k) * ys ! k"
        by (simp only:)
    qed
    finally show "sum_list (map2 (*) (take N (drop (i * N) xs)) ys) mod 2
        = (\<Sum>k\<leftarrow>[0..<N]. xs ! (i * N + k) * ys ! k) mod 2"
      by simp
  qed
  then show ?thesis by (simp add: split_rows_def o_def)
qed

lemma index_bound:
  assumes "i < (N :: nat)" and "j < P"
  shows "i * P + j < N * P"
proof -
  from assms(2) have "i * P + j < Suc i * P" by simp
  also from assms(1) have "Suc i * P \<le> N * P" by (intro mult_le_mono1) simp
  finally show ?thesis .
qed

lemma column_binary:
  assumes len: "length xs = N * P" and bin: "list_all (\<lambda>v. v = 0 \<or> v = 1) xs" and j: "j < P"
  shows "list_all (\<lambda>v. v = 0 \<or> v = 1) (map (\<lambda>i. xs ! (i * P + j)) [0..<N])"
proof -
  have "\<And>i. i < N \<Longrightarrow> xs ! (i * P + j) = 0 \<or> xs ! (i * P + j) = 1"
  proof -
    fix i assume "i < N"
    then have "i * P + j < length xs" using index_bound [OF _ j] len by simp
    then have "xs ! (i * P + j) \<in> set xs" by (rule nth_mem)
    with bin show "xs ! (i * P + j) = 0 \<or> xs ! (i * P + j) = 1" by (simp add: list_all_iff)
  qed
  then show ?thesis by (simp add: list_all_iff)
qed

lemma matmul_column_value:
  fixes bufA bufB :: "int list"
  assumes lenA: "length bufA = M * N" and lenB: "length bufB = N * P"
    and bA: "list_all (\<lambda>v. v = 0 \<or> v = 1) bufA" and bB: "list_all (\<lambda>v. v = 0 \<or> v = 1) bufB"
    and j: "j < P"
  shows "matmul_column
           \<lparr>shape = [M, (N + 7) div 8], buf = concat (map pack_line (split_rows M N bufA))\<rparr>
           \<lparr>shape = [(N + 7) div 8, P],
            buf = concat (columns ((N + 7) div 8)
                    (map pack_line (columns P (split_rows N P bufB))))\<rparr> j
       = Inr (map (\<lambda>i. (\<Sum>k\<leftarrow>[0..<N]. bufA ! (i * N + k) * bufB ! (k * P + j)) mod 2) [0..<M])"
proof -
  define K where "K = (N + 7) div 8"
  define rows where "rows = split_rows M N bufA"
  define ras where "ras = map pack_line rows"
  define cols where "cols = columns P (split_rows N P bufB)"
  define pcs where "pcs = map pack_line cols"
  define col where "col = map (\<lambda>i. bufB ! (i * P + j)) [0..<N]"
  have ras_len: "length ras = M" and ras_K: "list_all (\<lambda>l. length l = K) ras"
    unfolding ras_def rows_def K_def by (rule packed_rows_facts [OF lenA])+
  have colj: "cols ! j = col"
    unfolding cols_def col_def by (simp only: nth_columns [OF j] column_of_rows [OF lenB j])
  have col_len: "length col = N" by (simp add: col_def)
  have col_bin: "list_all (\<lambda>v. v = 0 \<or> v = 1) col"
    unfolding col_def by (rule column_binary [OF lenB bB j])
  have pcs_len: "length pcs = P" by (simp add: pcs_def cols_def)
  have pcsj: "pcs ! j = pack_line col"
    using j by (simp add: pcs_def cols_def colj [unfolded cols_def])
  have cb_len: "length (pack_line col) = K" by (simp add: K_def col_len)
  have tc: "take_column \<lparr>shape = [K, P], buf = concat (columns K pcs)\<rparr> j
      = \<lparr>shape = [K], buf = pack_line col\<rparr>"
  proof -
    have "length (pcs ! j) = K" by (simp only: pcsj cb_len)
    moreover have "j < length pcs" by (simp only: pcs_len j)
    ultimately have "map (\<lambda>l. l ! j) (columns K pcs) = pcs ! j"
      by (intro column_of_columns)
    then show ?thesis
      by (simp add: take_column_def split_rows_columns [OF pcs_len] pcsj)
  qed
  define ands where "ands = map (\<lambda>ra. map2 (AND) ra (pack_line col)) ras"
  have ab: "binary_ufunc (AND) \<lparr>shape = [M, K], buf = concat ras\<rparr>
        \<lparr>shape = [K], buf = pack_line col\<rparr>
      = Inr \<lparr>shape = [M, K], buf = concat ands\<rparr>"
    unfolding ands_def by (rule and_rows [OF ras_len ras_K cb_len])
  define counts where "counts = map (map (\<lambda>w. sum_list (unpack_byte w))) ands"
  have counts_len: "length counts = M" by (simp add: counts_def ands_def ras_len)
  have counts_K: "list_all (\<lambda>l. length l = K) counts"
    using ras_K cb_len by (simp add: counts_def ands_def list_all_iff)
  have cnt: "bitwise_count \<lparr>shape = [M, K], buf = concat ands\<rparr>
      = \<lparr>shape = [M, K], buf = concat counts\<rparr>"
    by (simp add: bitwise_count_def counts_def map_concat)
  have red: "bitwise_xor_reduce \<lparr>shape = [M, K], buf = concat counts\<rparr>
      = \<lparr>shape = [M], buf = map (foldl (XOR) 0) counts\<rparr>"
    by (simp add: bitwise_xor_reduce_def split_rows_concat [OF counts_len counts_K])
  have val: "map (\<lambda>v. v mod 2) (map (foldl (XOR) 0) counts)
      = map (\<lambda>row. sum_list (map2 (*) row col) mod 2) rows"
  proof -
    have "map (\<lambda>row. foldl (XOR) 0 (map (\<lambda>w. sum_list (unpack_byte w))
              (map2 (AND) (pack_line row) (pack_line col))) mod 2) rows
        = map (\<lambda>row. sum_list (map2 (*) row col) mod 2) rows"
    proof (intro map_cong refl)
      fix row assume row: "row \<in> set rows"
      with split_rows_lengths [OF lenA] have "length row = length col"
        by (simp add: rows_def list_all_iff col_len)
      moreover from row split_rows_all [OF bA, of M N]
      have "list_all (\<lambda>v. v = 0 \<or> v = 1) row"
        by (simp add: rows_def list_all_iff)
      ultimately show "foldl (XOR) 0 (map (\<lambda>w. sum_list (unpack_byte w))
              (map2 (AND) (pack_line row) (pack_line col))) mod 2
          = sum_list (map2 (*) row col) mod 2"
        using col_bin by (rule matrix_strategy)
    qed
    then show ?thesis by (simp add: counts_def ands_def ras_def o_def)
  qed
  have idx: "map (\<lambda>row. sum_list (map2 (*) row col) mod 2) rows
      = map (\<lambda>i. (\<Sum>k\<leftarrow>[0..<N]. bufA ! (i * N + k) * bufB ! (k * P + j)) mod 2) [0..<M]"
  proof -
    have "map (\<lambda>row. sum_list (map2 (*) row col) mod 2) rows
        = map (\<lambda>i. (\<Sum>k\<leftarrow>[0..<N]. bufA ! (i * N + k) * col ! k) mod 2) [0..<M]"
      unfolding rows_def by (rule rows_dot [OF lenA col_len])
    moreover have "\<And>i. map (\<lambda>k. bufA ! (i * N + k) * col ! k) [0..<N]
        = map (\<lambda>k. bufA ! (i * N + k) * bufB ! (k * P + j)) [0..<N]"
      by (intro map_cong refl) (simp add: col_def)
    ultimately show ?thesis by simp
  qed
  have "matmul_column \<lparr>shape = [M, K], buf = concat ras\<rparr>
          \<lparr>shape = [K, P], buf = concat (columns K pcs)\<rparr> j
      = Inr (map (\<lambda>v. v mod 2) (map (foldl (XOR) 0) counts))"
    unfolding matmul_column_def
    by (simp only: tc ab bind_result.simps cnt red ndarray.simps)
  then have "matmul_column \<lparr>shape = [M, K], buf = concat ras\<rparr>
          \<lparr>shape = [K, P], buf = concat (columns K pcs)\<rparr> j
      = Inr (map (\<lambda>i. (\<Sum>k\<leftarrow>[0..<N]. bufA ! (i * N + k) * bufB ! (k * P + j)) mod 2) [0..<M])"
    by (simp only: val idx)
  then show ?thesis
    by (simp only: K_def ras_def rows_def pcs_def cols_def)
qed

section \<open>The matrix case\<close>

lemma binary_mod2_rows:
  "list_all (\<lambda>v. v = 0 \<or> v = 1)
     (concat (map (\<lambda>i. map (\<lambda>j. f i j mod (2 :: int)) js) is))"
proof (induction "is")
  case Nil
  show ?case by simp
next
  case (Cons i "is")
  with binary_mod2 [of "f i" js] show ?case by simp
qed

lemma matmul_matrix:
  assumes wfA: "wf_array A" and binA: "is_binary A" and wfB: "wf_array B" and binB: "is_binary B"
    and shA: "shape A = [M, N]" and shB: "shape B = [N, P]"
  shows "packed_matmul_unpacked A B
       = Inr \<lparr>shape = [M, P],
              buf = concat (map (\<lambda>i. map (\<lambda>j. (\<Sum>k\<leftarrow>[0..<N].
                       buf A ! (i * N + k) * buf B ! (k * P + j)) mod 2) [0..<P]) [0..<M])\<rparr>"
proof -
  define K where "K = (N + 7) div 8"
  define ras where "ras = map pack_line (split_rows M N (buf A))"
  define pcs where "pcs = map pack_line (columns P (split_rows N P (buf B)))"
  define c where "c = (\<lambda>i j. (\<Sum>k\<leftarrow>[0..<N]. buf A ! (i * N + k) * buf B ! (k * P + j)) mod 2)"
  define W where "W = \<lparr>shape = [M, P], buf = concat (map (\<lambda>i. map (\<lambda>j. c i j) [0..<P]) [0..<M])\<rparr>"
  define a where "a = \<lparr>shape = [M, K], buf = concat ras\<rparr>"
  define b where "b = \<lparr>shape = [K, P], buf = concat (columns K pcs)\<rparr>"
  from wfA shA have lenA: "length (buf A) = M * N" by (simp add: wf_array_def)
  from wfB shB have lenB: "length (buf B) = N * P" by (simp add: wf_array_def)
  from binA have bA: "list_all (\<lambda>v. v = 0 \<or> v = 1) (buf A)" by (simp add: is_binary_def)
  from binB have bB: "list_all (\<lambda>v. v = 0 \<or> v = 1) (buf B)" by (simp add: is_binary_def)
  have pa: "GF2_astype_GF2BP A = Inr \<lparr>packed = a, unpacked_shape = Some [M, N]\<rparr>"
    by (simp only: pack_binary [OF binA] packbits_last_2d [OF shA] shA K_def ras_def a_def)
  have pb: "GF2_astype_GF2BP B = Inr \<lparr>packed = packbits_last B, unpacked_shape = Some [N, P]\<rparr>"
    by (simp only: pack_binary [OF binB] shB)
  have "unpackbits_last (packbits_last B) (Some (last (shape B))) = B"
    by (rule unpackbits_packbits_last [OF wfB binB]) (simp add: shB)
  then have unB: "unpackbits_last (packbits_last B) (Some P) = B" by (simp add: shB)
  have rb: "packbits_first B = b"
    unfolding b_def K_def pcs_def by (rule packbits_first_2d [OF shB])
  have col: "\<And>j. j \<in> set [0..<P] \<Longrightarrow> matmul_column a b j = Inr (map (\<lambda>i. c i j) [0..<M])"
  proof -
    fix j assume "j \<in> set [0..<P]"
    then have j: "j < P" by simp
    show "matmul_column a b j = Inr (map (\<lambda>i. c i j) [0..<M])"
      unfolding a_def b_def ras_def pcs_def K_def c_def
      by (rule matmul_column_value [OF lenA lenB bA bB j])
  qed
  have "matmul_loop a b [0..<P] (GF2_Zeros [M, P])
      = Inr (fold (\<lambda>j o'. set_column o' j (map (\<lambda>i. c i j) [0..<M])) [0..<P] (GF2_Zeros [M, P]))"
    by (rule matmul_loop_fold [OF col])
  also have "fold (\<lambda>j o'. set_column o' j (map (\<lambda>i. c i j) [0..<M])) [0..<P] (GF2_Zeros [M, P])
      = \<lparr>shape = [M, P],
         buf = concat (map (\<lambda>i. map (\<lambda>j. if j < P then c i j else 0) [0..<P]) [0..<M])\<rparr>"
    by (rule fold_columns) simp
  also have "(\<lambda>i. map (\<lambda>j. if j < P then c i j else 0) [0..<P]) = (\<lambda>i. map (\<lambda>j. c i j) [0..<P])"
    by (intro ext map_cong refl) simp
  finally have loop: "matmul_loop a b [0..<P] (GF2_Zeros [M, P]) = Inr W"
    by (simp only: W_def)
  have sha: "shape a = [M, K]" and shb: "shape b = [K, P]" by (simp_all add: a_def b_def)
  have call: "matmul_ufunc_bitpacked_call
        (BitPacked \<lparr>packed = a, unpacked_shape = Some [M, N]\<rparr>)
        (BitPacked \<lparr>packed = packbits_last B, unpacked_shape = Some [N, P]\<rparr>)
      = Inr \<lparr>packed = packbits_last W, unpacked_shape = Some [M, P]\<rparr>"
    unfolding matmul_ufunc_bitpacked_call_def
    by (simp add: Let_def get_unpacked_shape_def unB rb sha shb loop)
  have shW: "shape W = [M, P]" by (simp add: W_def)
  have wfW: "wf_array W"
    unfolding wf_array_def W_def
    by (simp add: length_concat_uniform [of P] list_all_iff)
  have binW: "is_binary W"
    unfolding is_binary_def W_def c_def by (simp only: ndarray.simps binary_mod2_rows)
  have "GF2BP_astype \<lparr>packed = packbits_last W, unpacked_shape = Some (shape W)\<rparr> To_GF2 = Inr W"
    by (rule unpack_packed [OF wfW binW]) (simp add: shW)
  then have "packed_matmul_unpacked A B = Inr W"
    unfolding packed_matmul_unpacked_def packed_matmul_def
    by (simp only: pa pb bind_result.simps call shW)
  then show ?thesis by (simp only: W_def c_def)
qed

lemma matmul_vector_index:
  assumes wfA: "wf_array A" and binA: "is_binary A" and wfB: "wf_array B" and binB: "is_binary B"
    and shA: "shape A = [M, N]" and shB: "shape B = [N]"
  shows "packed_matmul_unpacked A B
       = Inr \<lparr>shape = [M],
              buf = map (\<lambda>i. (\<Sum>k\<leftarrow>[0..<N]. buf A ! (i * N + k) * buf B ! k) mod 2) [0..<M]\<rparr>"
proof -
  from wfA shA have lenA: "length (buf A) = M * N" by (simp add: wf_array_def)
  from wfB shB have lenB: "length (buf B) = N" by (simp add: wf_array_def)
  show ?thesis
    by (simp only: matmul_vector [OF assms] rows_dot [OF lenA lenB])
qed

section \<open>The claims about the scalar rules\<close>

lemma add_override_eta: "add_override = (\<lambda>a b. Inr (a XOR b))"
  by (intro ext) (simp add: add_override_def)

lemma subtract_override_eta: "subtract_override = (\<lambda>a b. Inr (a XOR b))"
  by (intro ext) (simp add: subtract_override_def)

lemma multiply_override_eta: "multiply_override = (\<lambda>a b. Inr (a AND b))"
  by (intro ext) (simp add: multiply_override_def)

lemma negative_override_eta: "negative_override = (\<lambda>a. Inr a)"
  by (intro ext) (simp add: negative_override_def)

lemma bit_rules:
  fixes a b :: int
  assumes "a = 0 \<or> a = 1" and "b = 0 \<or> b = 1"
  shows "a XOR b = (a + b) mod 2" and "a XOR b = (a - b) mod 2" and "a AND b = a * b"
    and "a = (- a) mod 2" and "a * a = a"
  using assms by auto

text \<open>
  C5. For \<open>a\<close>, \<open>b\<close> in \<open>{0,1}\<close> addition and subtraction return \<open>a XOR b\<close>, multiplication
  returns \<open>a AND b\<close>, negation and the square root return \<open>a\<close>; none of them fails. These
  are the sum, the difference, the product and the opposite modulo 2, and the square of
  the square root is \<open>a\<close>. On two well-formed arrays of one shape the dispatcher applies the
  same rules element by element.
\<close>

theorem C5_total_rules:
  fixes a b :: int
  assumes "a = 0 \<or> a = 1" and "b = 0 \<or> b = 1"
    and "wf_array x" and "wf_array y" and "shape y = shape x"
  shows "add_override a b = Inr (a XOR b) \<and> a XOR b = (a + b) mod 2
       \<and> subtract_override a b = Inr (a XOR b) \<and> a XOR b = (a - b) mod 2
       \<and> multiply_override a b = Inr (a AND b) \<and> a AND b = a * b
       \<and> negative_override a = Inr a \<and> a = (- a) mod 2
       \<and> sqrt_implementation \<lparr>shape = [], buf = [a]\<rparr> = Inr \<lparr>shape = [], buf = [a]\<rparr> \<and> a * a = a
       \<and> ufunc_call2 add_override x y
           = Inr \<lparr>shape = shape x, buf = map2 (XOR) (buf x) (buf y)\<rparr>
       \<and> ufunc_call2 subtract_override x y
           = Inr \<lparr>shape = shape x, buf = map2 (XOR) (buf x) (buf y)\<rparr>
       \<and> ufunc_call2 multiply_override x y
           = Inr \<lparr>shape = shape x, buf = map2 (AND) (buf x) (buf (y :: int ndarray))\<rparr>
       \<and> ufunc_call1 negative_override x = Inr (x :: int ndarray)
       \<and> sqrt_implementation x = Inr x"
proof -
  have scalar: "add_override a b = Inr (a XOR b)" "subtract_override a b = Inr (a XOR b)"
    "multiply_override a b = Inr (a AND b)" "negative_override a = Inr a"
    by (simp_all add: add_override_def subtract_override_def multiply_override_def
        negative_override_def)
  have arrays: "ufunc_call2 add_override x y
        = Inr \<lparr>shape = shape x, buf = map2 (XOR) (buf x) (buf y)\<rparr>"
    "ufunc_call2 subtract_override x y
        = Inr \<lparr>shape = shape x, buf = map2 (XOR) (buf x) (buf y)\<rparr>"
    "ufunc_call2 multiply_override x y
        = Inr \<lparr>shape = shape x, buf = map2 (AND) (buf x) (buf y)\<rparr>"
    unfolding add_override_eta subtract_override_eta multiply_override_eta
    by (rule ufunc_call2_total [OF assms(3,4,5)])+
  have neg: "ufunc_call1 negative_override x = Inr x"
    unfolding negative_override_eta by (simp add: ufunc_call1_total ndarray_eta)
  have sq: "sqrt_implementation x = Inr x"
    "sqrt_implementation \<lparr>shape = [], buf = [a]\<rparr> = Inr \<lparr>shape = [], buf = [a]\<rparr>"
    by (simp_all add: sqrt_implementation_def)
  from scalar arrays neg sq bit_rules [OF assms(1,2)] show ?thesis by blast
qed

theorem C5_witness:
  "add_override (1 :: int) 1 = Inr 0 \<and> subtract_override (0 :: int) 1 = Inr 1
   \<and> multiply_override (1 :: int) 1 = Inr 1 \<and> negative_override (1 :: int) = Inr 1
   \<and> ufunc_call2 add_override \<lparr>shape = [2], buf = [1, 1 :: int]\<rparr> \<lparr>shape = [2], buf = [0, 1]\<rparr>
       = Inr \<lparr>shape = [2], buf = [1, 0]\<rparr>
   \<and> ufunc_call2 multiply_override \<lparr>shape = [2], buf = [1, 1 :: int]\<rparr> \<lparr>shape = [2], buf = [0, 1]\<rparr>
       = Inr \<lparr>shape = [2], buf = [0, 1]\<rparr>"
proof -
  have wf: "wf_array \<lparr>shape = [2], buf = [1, 1 :: int]\<rparr>" "wf_array \<lparr>shape = [2], buf = [0, 1 :: int]\<rparr>"
    by (simp_all add: wf_array_def)
  have sh: "shape \<lparr>shape = [2], buf = [0, 1 :: int]\<rparr> = shape \<lparr>shape = [2], buf = [1, 1 :: int]\<rparr>"
    by simp
  from C5_total_rules [of 1 1, OF _ _ wf sh] C5_total_rules [of 0 1, OF _ _ wf sh]
  show ?thesis by simp
qed

text \<open>
  C6. For \<open>a\<close>, \<open>b\<close> in \<open>{0,1}\<close> and an integer exponent \<open>e\<close>: the reciprocal of 1 is 1 and
  that of 0 fails with DivisionByZero; dividing by 1 gives \<open>a AND b\<close>, dividing by 0 fails
  with DivisionByZero; the power is 1 for the exponent 0 and \<open>a\<close> for any other exponent,
  and it fails, with DivisionByZero, exactly when \<open>a = 0\<close> and \<open>e < 0\<close>.
\<close>

theorem C6_reciprocal_divide_power:
  assumes "a = 0 \<or> a = 1" and "b = 0 \<or> b = 1"
  shows "(a = 1 \<longrightarrow> reciprocal_calculate a = Inr 1)
       \<and> (a = 0 \<longrightarrow> reciprocal_calculate a = Inl DivisionByZero)
       \<and> (b = 1 \<longrightarrow> divide_calculate a b = Inr (a AND b))
       \<and> (b = 0 \<longrightarrow> divide_calculate a b = Inl DivisionByZero)
       \<and> (e = 0 \<longrightarrow> power_calculate a e = Inr 1)
       \<and> (e \<noteq> 0 \<and> (a \<noteq> 0 \<or> 0 < e) \<longrightarrow> power_calculate a e = Inr a)
       \<and> (a = 0 \<and> e < 0 \<longrightarrow> power_calculate a e = Inl DivisionByZero)
       \<and> ((\<exists>err. power_calculate a e = Inl err) \<longleftrightarrow> a = 0 \<and> e < 0)"
  using assms
  by (auto simp: reciprocal_calculate_def divide_calculate_def power_calculate_def)

theorem C6_witness:
  "reciprocal_calculate 1 = Inr 1 \<and> divide_calculate 1 1 = Inr 1
   \<and> power_calculate 1 0 = Inr 1 \<and> power_calculate 1 (- 3) = Inr 1
   \<and> reciprocal_calculate 0 = Inl DivisionByZero \<and> divide_calculate 0 0 = Inl DivisionByZero
   \<and> power_calculate 0 (- 1) = Inl DivisionByZero \<and> power_calculate 0 5 = Inr 0"
  using C6_reciprocal_divide_power [of 1 1 0] C6_reciprocal_divide_power [of 1 1 "- 3"]
    C6_reciprocal_divide_power [of 0 0 "- 1"] C6_reciprocal_divide_power [of 0 0 5]
  by simp

text \<open>
  C7. For \<open>a\<close>, \<open>b\<close> in \<open>{0,1}\<close> the logarithm is 0 when \<open>a \<noteq> 0\<close> and \<open>b = 1\<close>; it fails
  with UndefinedLogarithm whenever \<open>a = 0\<close>, whatever \<open>b\<close>; it fails with InvalidGenerator
  whenever \<open>a \<noteq> 0\<close> and \<open>b \<noteq> 1\<close>. The two failures are different values.
\<close>

theorem C7_log:
  assumes "a = 0 \<or> a = 1" and "b = 0 \<or> b = 1"
  shows "(a \<noteq> 0 \<and> b = 1 \<longrightarrow> log_calculate a b = Inr 0)
       \<and> (a = 0 \<longrightarrow> log_calculate a b = Inl UndefinedLogarithm)
       \<and> (a \<noteq> 0 \<and> b \<noteq> 1 \<longrightarrow> log_calculate a b = Inl InvalidGenerator)
       \<and> UndefinedLogarithm \<noteq> InvalidGenerator"
  using assms by (auto simp: log_calculate_def UndefinedLogarithm_def InvalidGenerator_def)

theorem C7_witness:
  "log_calculate 1 1 = Inr 0 \<and> log_calculate 0 1 = Inl UndefinedLogarithm
   \<and> log_calculate 0 0 = Inl UndefinedLogarithm \<and> log_calculate 1 0 = Inl InvalidGenerator"
  using C7_log [of 1 1] C7_log [of 0 1] C7_log [of 0 0] C7_log [of 1 0]
  by simp

section \<open>The claims about packing and casting\<close>

text \<open>
  C2, as amended. For every well-formed array \<open>y\<close> with at least one axis and all elements
  in \<open>{0,1}\<close>, packing \<open>y\<close> and casting the packed array back returns \<open>y\<close> itself (its
  shape included, so exactly the elements of the logical last axis are selected and the
  padding bits are dropped), and packing that result again gives the same packed array.
\<close>

theorem C2_pack_unpack_roundtrip:
  assumes "wf_array y" and "is_binary y" and "shape y \<noteq> []"
  shows "pack_then_unpack y = Inr y
       \<and> bind_result (pack_then_unpack y) GF2_astype_GF2BP = GF2_astype_GF2BP y"
  by (simp only: roundtrip [OF assms] bind_result.simps)

theorem C2_witness:
  "pack_then_unpack \<lparr>shape = [4], buf = [1, 0, 1, 1]\<rparr> = Inr \<lparr>shape = [4], buf = [1, 0, 1, 1]\<rparr>
   \<and> bind_result (pack_then_unpack \<lparr>shape = [4], buf = [1, 0, 1, 1]\<rparr>) GF2_astype_GF2BP
     = GF2_astype_GF2BP \<lparr>shape = [4], buf = [1, 0, 1, 1]\<rparr>"
proof -
  have "wf_array \<lparr>shape = [4], buf = [1, 0, 1, 1 :: int]\<rparr>" by (simp add: wf_array_def)
  moreover have "is_binary \<lparr>shape = [4], buf = [1, 0, 1, 1]\<rparr>" by (simp add: is_binary_def)
  moreover have "shape \<lparr>shape = [4], buf = [1, 0, 1, 1 :: int]\<rparr> \<noteq> []" by simp
  ultimately show ?thesis by (rule C2_pack_unpack_roundtrip)
qed

text \<open>
  C2 as stated fails for a zero-dimensional array: it is packed, with an empty
  \<^verbatim>\<open>_unpacked_shape\<close>, and the cast back indexes that empty tuple.
\<close>

theorem C2_counterexample:
  "wf_array \<lparr>shape = [], buf = [1 :: int]\<rparr> \<and> is_binary \<lparr>shape = [], buf = [1]\<rparr>
   \<and> pack_then_unpack \<lparr>shape = [], buf = [1]\<rparr> = Inl IndexError"
  by code_simp







text \<open>
  C9, as amended. The unpacked array type is constructed from a nested sequence or an
  array of integers; the packed array type is constructed from an array only, and from an
  integer or a nested sequence its constructor fails with the not-implemented condition.
  In both constructors an element outside \<open>{0,1}\<close> is a ValidationError, and on success the
  elements are the given ones: the unpacked array holds them unchanged and the packed array
  is the packing of the given array under its own shape.
\<close>

lemma verify_iff:
  "verify_array_like_types_and_values a
   = (if list_all (\<lambda>v. v = 0 \<or> v = 1) (buf a) then Inr a else Inl ValidationError)"
proof -
  have "(\<lambda>v :: int. 0 \<le> v \<and> v < 2) = (\<lambda>v. v = 0 \<or> v = 1)" by (intro ext) auto
  then show ?thesis by (simp add: verify_array_like_types_and_values_def)
qed

theorem C9_construction:
  "GF2BP_new (PySeq xs) n = Inl NotImplementedError
   \<and> GF2BP_new (PyInt v) n = Inl NotImplementedError
   \<and> GF2BP_new (NdArray a) n
       = (if list_all (\<lambda>v. v = 0 \<or> v = 1) (buf a)
          then Inr \<lparr>packed = packbits_last (np_array a n), unpacked_shape = Some (shape a)\<rparr>
          else Inl ValidationError)
   \<and> GF2_new x
       = (if list_all (\<lambda>v. v = 0 \<or> v = 1) (leaves x)
          then Inr \<lparr>shape = seq_shape x, buf = leaves x\<rparr>
          else Inl ValidationError)"
  by (simp add: GF2BP_new_def GF2_new_def verify_iff)

theorem C9_witness:
  "GF2BP_new (PySeq [PyInt 1, PyInt 0]) 0 = Inl NotImplementedError
   \<and> GF2BP_new (PyInt 1) 0 = Inl NotImplementedError
   \<and> GF2BP_new (NdArray \<lparr>shape = [4], buf = [1, 0, 1, 1]\<rparr>) 0
       = Inr \<lparr>packed = \<lparr>shape = [1], buf = [176]\<rparr>, unpacked_shape = Some [4]\<rparr>
   \<and> GF2BP_new (NdArray \<lparr>shape = [4], buf = [1, 0, 2, 1]\<rparr>) 0 = Inl ValidationError
   \<and> GF2_new (PySeq [PySeq [PyInt 1, PyInt 0], PySeq [PyInt 1, PyInt 1]])
       = Inr \<lparr>shape = [2, 2], buf = [1, 0, 1, 1]\<rparr>
   \<and> GF2_new (PySeq [PyInt 1, PyInt (- 1)]) = Inl ValidationError"
proof -
  have p: "packbits_last (np_array \<lparr>shape = [4], buf = [1, 0, 1, 1]\<rparr> 0) = \<lparr>shape = [1], buf = [176]\<rparr>"
    by code_simp
  from C9_construction [of "[PyInt 1, PyInt 0]" 0 1 "\<lparr>shape = [4], buf = [1, 0, 1, 1]\<rparr>"
        "PySeq [PySeq [PyInt 1, PyInt 0], PySeq [PyInt 1, PyInt 1]]"]
    C9_construction [of "[PyInt 1, PyInt 0]" 0 1 "\<lparr>shape = [4], buf = [1, 0, 2, 1]\<rparr>"
        "PySeq [PyInt 1, PyInt (- 1)]"] p
  show ?thesis by simp
qed

text \<open>
  C9 as stated fails for the packed type: a nested sequence of integers of \<open>{0,1}\<close> is
  refused.
\<close>

theorem C9_counterexample:
  "list_all (\<lambda>v. v = 0 \<or> v = 1) (leaves (PySeq [PyInt 1, PyInt 0, PyInt 1, PyInt 1]))
   \<and> GF2BP_new (PySeq [PyInt 1, PyInt 0, PyInt 1, PyInt 1]) 0 = Inl NotImplementedError"
  by (simp add: GF2BP_new_def)

section \<open>The claims about the packed matrix product\<close>

text \<open>
  C10. When either operand of the packed matrix product is not a packed array, the call
  fails with the assertion error; nothing is computed and no operand is converted.
\<close>

theorem C10_operands_must_be_packed:
  assumes "\<not> (is_GF2BP x \<and> is_GF2BP y)"
  shows "matmul_ufunc_bitpacked_call x y = Inl AssertionError"
  using assms
  by (cases x; cases y) (simp_all add: matmul_ufunc_bitpacked_call_def is_GF2BP_def)

theorem C10_witness:
  "matmul_ufunc_bitpacked_call
     (Unpacked \<lparr>shape = [2, 3], buf = [1, 0, 1, 0, 1, 1]\<rparr>)
     (BitPacked \<lparr>packed = \<lparr>shape = [1], buf = [192]\<rparr>, unpacked_shape = Some [3]\<rparr>)
   = Inl AssertionError"
proof -
  have "\<not> (is_GF2BP (Unpacked \<lparr>shape = [2, 3], buf = [1, 0, 1, 0, 1, 1]\<rparr>)
      \<and> is_GF2BP (BitPacked \<lparr>packed = \<lparr>shape = [1], buf = [192]\<rparr>, unpacked_shape = Some [3]\<rparr>))"
    by (simp add: is_GF2BP_def)
  then show ?thesis by (rule C10_operands_must_be_packed)
qed

text \<open>
  C4, on the code. The assertion compares the last extent of the storage of the first
  operand with the first extent of the storage of the repacked second operand. A 2 by 3
  matrix and a vector of length 4 both have one byte there: the assertion passes and a
  product is returned.
\<close>

theorem C4_mismatch_not_detected:
  "last (shape \<lparr>shape = [2, 3], buf = [1, 0, 1, 0, 1, 1 :: int]\<rparr>)
     \<noteq> hd (shape \<lparr>shape = [4], buf = [1, 1, 0, 1 :: int]\<rparr>)
   \<and> packed_matmul \<lparr>shape = [2, 3], buf = [1, 0, 1, 0, 1, 1]\<rparr> \<lparr>shape = [4], buf = [1, 1, 0, 1]\<rparr>
     = Inr \<lparr>packed = \<lparr>shape = [1], buf = [192]\<rparr>, unpacked_shape = Some [2]\<rparr>"
  by code_simp

text \<open>
  C1. For all \<open>M\<close>, \<open>N\<close>, \<open>P\<close> (zero included) and all well-formed arrays \<open>A\<close> of shape
  \<open>[M, N]\<close> and \<open>B\<close> of shape \<open>[N]\<close> or \<open>[N, P]\<close> with elements in \<open>{0,1}\<close>: packing both,
  multiplying the packed arrays and unpacking the product succeeds and gives exactly the
  integer matrix product of \<open>A\<close> and \<open>B\<close> reduced modulo 2. The vector case reduces the
  unpacked bits with XOR, the matrix case reduces the population counts with XOR and takes
  the residue modulo 2; both give the reference result.
\<close>

theorem C1_packed_matmul_correct:
  assumes "wf_array A" and "is_binary A" and "wf_array B" and "is_binary B"
    and "shape A = [M, N]" and "shape B = [N] \<or> shape B = [N, P]"
  shows "packed_matmul_unpacked A B = Inr (reference_matmul_mod2 A B)"
proof -
  from assms(6) show ?thesis
  proof
    assume shB: "shape B = [N]"
    have "reference_matmul_mod2 A B
        = \<lparr>shape = [M],
           buf = map (\<lambda>i. (\<Sum>k\<leftarrow>[0..<N]. buf A ! (i * N + k) * buf B ! k) mod 2) [0..<M]\<rparr>"
      by (simp add: reference_matmul_mod2_def assms(5) shB)
    then show ?thesis
      by (simp only: matmul_vector_index [OF assms(1-5) shB])
  next
    assume shB: "shape B = [N, P]"
    have "reference_matmul_mod2 A B
        = \<lparr>shape = [M, P],
           buf = concat (map (\<lambda>i. map (\<lambda>j. (\<Sum>k\<leftarrow>[0..<N].
                    buf A ! (i * N + k) * buf B ! (k * P + j)) mod 2) [0..<P]) [0..<M])\<rparr>"
      by (simp add: reference_matmul_mod2_def assms(5) shB)
    then show ?thesis
      by (simp only: matmul_matrix [OF assms(1-5) shB])
  qed
qed

theorem C1_witness:
  "packed_matmul_unpacked \<lparr>shape = [2, 3], buf = [1, 0, 1, 0, 1, 1]\<rparr> \<lparr>shape = [3], buf = [1, 1, 0]\<rparr>
     = Inr \<lparr>shape = [2], buf = [1, 1]\<rparr>
   \<and> packed_matmul_unpacked \<lparr>shape = [2, 3], buf = [1, 0, 1, 0, 1, 1]\<rparr>
         \<lparr>shape = [3, 2], buf = [1, 1, 1, 0, 0, 1]\<rparr>
     = Inr \<lparr>shape = [2, 2], buf = [1, 0, 1, 1]\<rparr>
   \<and> packed_matmul_unpacked \<lparr>shape = [2, 0], buf = []\<rparr> \<lparr>shape = [0, 3], buf = []\<rparr>
     = Inr \<lparr>shape = [2, 3], buf = [0, 0, 0, 0, 0, 0]\<rparr>"
proof -
  have wf: "wf_array \<lparr>shape = [2, 3], buf = [1, 0, 1, 0, 1, 1 :: int]\<rparr>"
    "wf_array \<lparr>shape = [3], buf = [1, 1, 0 :: int]\<rparr>"
    "wf_array \<lparr>shape = [3, 2], buf = [1, 1, 1, 0, 0, 1 :: int]\<rparr>"
    "wf_array \<lparr>shape = [2, 0], buf = [] :: int list\<rparr>"
    "wf_array \<lparr>shape = [0, 3], buf = [] :: int list\<rparr>"
    by (simp_all add: wf_array_def)
  have bin: "is_binary \<lparr>shape = [2, 3], buf = [1, 0, 1, 0, 1, 1]\<rparr>"
    "is_binary \<lparr>shape = [3], buf = [1, 1, 0]\<rparr>"
    "is_binary \<lparr>shape = [3, 2], buf = [1, 1, 1, 0, 0, 1]\<rparr>"
    "is_binary \<lparr>shape = [2, 0], buf = []\<rparr>"
    "is_binary \<lparr>shape = [0, 3], buf = []\<rparr>"
    by (simp_all add: is_binary_def)
  have ref: "reference_matmul_mod2 \<lparr>shape = [2, 3], buf = [1, 0, 1, 0, 1, 1]\<rparr>
        \<lparr>shape = [3], buf = [1, 1, 0]\<rparr> = \<lparr>shape = [2], buf = [1, 1]\<rparr>"
    "reference_matmul_mod2 \<lparr>shape = [2, 3], buf = [1, 0, 1, 0, 1, 1]\<rparr>
        \<lparr>shape = [3, 2], buf = [1, 1, 1, 0, 0, 1]\<rparr> = \<lparr>shape = [2, 2], buf = [1, 0, 1, 1]\<rparr>"
    "reference_matmul_mod2 \<lparr>shape = [2, 0], buf = []\<rparr> \<lparr>shape = [0, 3], buf = []\<rparr>
        = \<lparr>shape = [2, 3], buf = [0, 0, 0, 0, 0, 0]\<rparr>"
    by code_simp+
  have v: "packed_matmul_unpacked \<lparr>shape = [2, 3], buf = [1, 0, 1, 0, 1, 1]\<rparr>
        \<lparr>shape = [3], buf = [1, 1, 0]\<rparr>
      = Inr (reference_matmul_mod2 \<lparr>shape = [2, 3], buf = [1, 0, 1, 0, 1, 1]\<rparr>
        \<lparr>shape = [3], buf = [1, 1, 0]\<rparr>)"
    by (rule C1_packed_matmul_correct [OF wf(1) bin(1) wf(2) bin(2), of 2 3 0]) simp_all
  have m: "packed_matmul_unpacked \<lparr>shape = [2, 3], buf = [1, 0, 1, 0, 1, 1]\<rparr>
        \<lparr>shape = [3, 2], buf = [1, 1, 1, 0, 0, 1]\<rparr>
      = Inr (reference_matmul_mod2 \<lparr>shape = [2, 3], buf = [1, 0, 1, 0, 1, 1]\<rparr>
        \<lparr>shape = [3, 2], buf = [1, 1, 1, 0, 0, 1]\<rparr>)"
    by (rule C1_packed_matmul_correct [OF wf(1) bin(1) wf(3) bin(3), of 2 3 2]) simp_all
  have z: "packed_matmul_unpacked \<lparr>shape = [2, 0], buf = []\<rparr> \<lparr>shape = [0, 3], buf = []\<rparr>
      = Inr (reference_matmul_mod2 \<lparr>shape = [2, 0], buf = []\<rparr> \<lparr>shape = [0, 3], buf = []\<rparr>)"
    by (rule C1_packed_matmul_correct [OF wf(4) bin(4) wf(5) bin(5), of 2 0 3]) simp_all
  from v m z show ?thesis by (simp only: ref)
qed

section \<open>The claim about the logical shape of results\<close>

text \<open>
  C3, on the code. The logical shape is attached by the four dispatchers of addition,
  subtraction, multiplication and division only, and always as that of the first input.
  On two packed arrays of logical shape \<open>[2, 3]\<close> the sum and the product do carry
  \<open>[2, 3]\<close>, not the shape \<open>[2, 1]\<close> of the storage. But
  \<^item> the square root and the opposite of such an array are packed arrays without a logical
    shape, and adding to such a result fails with \<^verbatim>\<open>AttributeError\<close>;
  \<^item> a packed vector of logical shape \<open>[3]\<close> plus a packed matrix of logical shape
    \<open>[2, 3]\<close> has the storage of the broadcast result, of shape \<open>[2, 1]\<close>, with the logical
    shape \<open>[3]\<close> of the first input, where the shapes combine to \<open>[2, 3]\<close>; unpacking it
    gives an array of shape \<open>[2, 3]\<close>, which is not the shape it carries.
\<close>

theorem C3_shape_not_propagated:
  "GF2BP_add
     [BitPacked \<lparr>packed = \<lparr>shape = [2, 1], buf = [160, 96]\<rparr>, unpacked_shape = Some [2, 3]\<rparr>,
      BitPacked \<lparr>packed = \<lparr>shape = [2, 1], buf = [192, 32]\<rparr>, unpacked_shape = Some [2, 3]\<rparr>]
     = Inr \<lparr>packed = \<lparr>shape = [2, 1], buf = [96, 64]\<rparr>, unpacked_shape = Some [2, 3]\<rparr>
   \<and> GF2BP_multiply
     [BitPacked \<lparr>packed = \<lparr>shape = [2, 1], buf = [160, 96]\<rparr>, unpacked_shape = Some [2, 3]\<rparr>,
      BitPacked \<lparr>packed = \<lparr>shape = [2, 1], buf = [192, 32]\<rparr>, unpacked_shape = Some [2, 3]\<rparr>]
     = Inr \<lparr>packed = \<lparr>shape = [2, 1], buf = [128, 32]\<rparr>, unpacked_shape = Some [2, 3]\<rparr>
   \<and> GF2BP_sqrt
     [BitPacked \<lparr>packed = \<lparr>shape = [2, 1], buf = [160, 96]\<rparr>, unpacked_shape = Some [2, 3]\<rparr>]
     = Inr \<lparr>packed = \<lparr>shape = [2, 1], buf = [160, 96]\<rparr>, unpacked_shape = None\<rparr>
   \<and> GF2BP_negative
     [BitPacked \<lparr>packed = \<lparr>shape = [2, 1], buf = [160, 96]\<rparr>, unpacked_shape = Some [2, 3]\<rparr>]
     = Inr \<lparr>packed = \<lparr>shape = [2, 1], buf = [160, 96]\<rparr>, unpacked_shape = None\<rparr>
   \<and> GF2BP_add
     [BitPacked \<lparr>packed = \<lparr>shape = [2, 1], buf = [160, 96]\<rparr>, unpacked_shape = None\<rparr>,
      BitPacked \<lparr>packed = \<lparr>shape = [2, 1], buf = [192, 32]\<rparr>, unpacked_shape = Some [2, 3]\<rparr>]
     = Inl AttributeError
   \<and> GF2BP_add
     [BitPacked \<lparr>packed = \<lparr>shape = [1], buf = [192]\<rparr>, unpacked_shape = Some [3]\<rparr>,
      BitPacked \<lparr>packed = \<lparr>shape = [2, 1], buf = [160, 96]\<rparr>, unpacked_shape = Some [2, 3]\<rparr>]
     = Inr \<lparr>packed = \<lparr>shape = [2, 1], buf = [96, 160]\<rparr>, unpacked_shape = Some [3]\<rparr>
   \<and> broadcast_shapes [3] [2, 3] = Some [2, 3]
   \<and> GF2BP_astype \<lparr>packed = \<lparr>shape = [2, 1], buf = [96, 160]\<rparr>, unpacked_shape = Some [3]\<rparr>
       To_GF2
     = Inr \<lparr>shape = [2, 3], buf = [0, 1, 1, 1, 0, 1]\<rparr>"
  by code_simp

end
